theory Spec2Isabelle
  imports Complex_Main "HOL-Library.List_Lexorder" "HOL-Library.Char_ord" "HOL-Library.AList"
    "HOL-Library.Sublist"
begin

section \<open>Data model\<close>

text \<open>
  A path is the list of the segments of a normalised absolute path, so that
  \<^verbatim>\<open>os.path.join(p, name)\<close> is \<open>p @ [name]\<close>, \<^verbatim>\<open>os.path.dirname(p)\<close> is
  \<open>butlast p\<close> (the filesystem root \<open>[]\<close> is its own parent) and
  \<^verbatim>\<open>os.path.normpath\<close> is the identity.
\<close>

type_synonym path = "string list"

text \<open>
  The value of the hidden \<^verbatim>\<open>state\<close> column of a Treeview item. \<open>Blank\<close> is the
  empty string that \<^verbatim>\<open>tree.set(iid, "state")\<close> gives for an item inserted without
  values (the \<^verbatim>\<open>loading...\<close> placeholder and the message entries).
\<close>

datatype state = Unchecked | Checked | Tristate | Blank

text \<open>
  What an item of the Treeview is: the invisible top item \<^verbatim>\<open>""\<close>, a node added by
  \<^verbatim>\<open>_add_node_to_tree\<close> (with its \<^verbatim>\<open>fullpath\<close> column), the \<^verbatim>\<open>loading...\<close>
  placeholder, or an entry that only shows a message (the hint shown before a source
  directory is chosen, and the entry shown when a directory cannot be listed).
\<close>

datatype kind = Top | Node path | Loading | Message

datatype item = Item kind "item list"

text \<open>
  An item is identified by its position: the list of child indices leading to it from
  the top item. The root node of a loaded directory is \<open>[0]\<close>; \<open>[]\<close> is the top item,
  which the code sees as the empty (false) identifier.
\<close>

type_synonym item_id = "nat list"

primrec kind_of :: "item \<Rightarrow> kind" where
  "kind_of (Item k cs) = k"

primrec children :: "item \<Rightarrow> item list" where
  "children (Item k cs) = cs"

fun item_at :: "item \<Rightarrow> item_id \<Rightarrow> item option" where
  "item_at it [] = Some it"
| "item_at it (i # is) =
     (if i < length (children it) then item_at (children it ! i) is else None)"

definition tree_exists :: "item \<Rightarrow> item_id \<Rightarrow> bool" where
  "tree_exists t iid = (item_at t iid \<noteq> None)"

definition get_children :: "item \<Rightarrow> item_id \<Rightarrow> item list" where
  "get_children t iid = (case item_at t iid of None \<Rightarrow> [] | Some it \<Rightarrow> children it)"

definition tree_size_at :: "item \<Rightarrow> item_id \<Rightarrow> nat" where
  "tree_size_at t iid = (case item_at t iid of None \<Rightarrow> 0 | Some it \<Rightarrow> size it)"

section \<open>Selection tree: propagation of the check state\<close>

text \<open>
  \<^verbatim>\<open>_update_parent_state\<close>: the parent of \<open>item_id\<close> takes the common state of its
  children that are not the \<^verbatim>\<open>loading...\<close> placeholder when that set of states
  (\<open>child_states\<close>, here a list whose duplicates \<open>common_state\<close> removes) has exactly
  one element, and \<open>Tristate\<close> otherwise; then the same for the parent's parent. It
  stops at an item whose parent is the top item.
\<close>

lemma butlast_differs: "butlast xs \<noteq> xs \<Longrightarrow> length xs - Suc 0 < length xs"
  by (cases xs) auto

lemma butlast_shorter: "butlast xs \<noteq> [] \<Longrightarrow> length xs - Suc 0 < length xs"
  by (cases xs) auto

definition child_states :: "item \<Rightarrow> (item_id \<Rightarrow> state) \<Rightarrow> item_id \<Rightarrow> state list" where
  "child_states t st parent_id =
     (let cs = get_children t parent_id
      in map (\<lambda>i. st (parent_id @ [i]))
             (filter (\<lambda>i. kind_of (cs ! i) \<noteq> Loading) [0..<length cs]))"

definition common_state :: "state list \<Rightarrow> state" where
  "common_state states = (case remdups states of [s] \<Rightarrow> s | _ \<Rightarrow> Tristate)"

function update_parent_state :: "item \<Rightarrow> (item_id \<Rightarrow> state) \<Rightarrow> item_id \<Rightarrow> item_id \<Rightarrow> state" where
  "update_parent_state t st item_id =
     (let parent_id = butlast item_id in
      if parent_id = [] then st
      else if get_children t parent_id = [] then st
      else let parent_state = common_state (child_states t st parent_id)
           in update_parent_state t (st(parent_id := parent_state)) parent_id)"
  by pat_completeness auto
termination
  by (relation "measure (\<lambda>(t, st, a). length a)") (auto simp: butlast_shorter)

declare update_parent_state.simps [simp del]

lemma item_at_append:
  "item_at t (a @ b) = (case item_at t a of None \<Rightarrow> None | Some it \<Rightarrow> item_at it b)"
  by (induction a arbitrary: t) auto

lemma item_at_snoc:
  "item_at t a = Some it \<Longrightarrow> i < length (children it) \<Longrightarrow>
   item_at t (a @ [i]) = Some (children it ! i)"
  by (simp add: item_at_append)

lemma size_child: "i < length (children it) \<Longrightarrow> size (children it ! i) < size it"
proof (cases it)
  case (Item k cs)
  assume "i < length (children it)"
  with Item have "cs ! i \<in> set cs" by simp
  then have "size (cs ! i) \<le> size_list size cs"
    by (simp add: size_list_estimation')
  with Item show ?thesis by simp
qed

lemma tree_size_at_child:
  "i < length (get_children t a) \<Longrightarrow> tree_size_at t (a @ [i]) < tree_size_at t a"
  by (auto simp: get_children_def tree_size_at_def item_at_append size_child
           split: option.splits)

text \<open>
  \<^verbatim>\<open>toggle_check\<close> and \<^verbatim>\<open>_update_children_state\<close>. The shape of the tree does not
  change while states are propagated, so the tree is passed unchanged and the state
  column is threaded through the calls in the order the code makes them: every child
  that is toggled recomputes all of its ancestors before the next child is visited.
  The text of the row, which \<^verbatim>\<open>toggle_check\<close> rewrites as well, is not part of the
  model. It matters for one row only, the \<^verbatim>\<open>loading...\<close> placeholder, which is a
  placeholder by its text: a toggle of the placeholder itself is outside the model
  (\<^verbatim>\<open>_update_children_state\<close> never toggles it, and it is never a displayed row).
\<close>

function toggle_check :: "item \<Rightarrow> (item_id \<Rightarrow> state) \<Rightarrow> item_id \<Rightarrow> state \<Rightarrow> bool \<Rightarrow> item_id \<Rightarrow> state"
  and update_children_state :: "item \<Rightarrow> (item_id \<Rightarrow> state) \<Rightarrow> item_id \<Rightarrow> state \<Rightarrow> item_id \<Rightarrow> state"
where
  "toggle_check t st item_id s propagate =
     (if \<not> tree_exists t item_id then st
      else let st1 = st(item_id := s) in
        if propagate
        then update_parent_state t (update_children_state t st1 item_id s) item_id
        else st1)"
| "update_children_state t st item_id s =
     fold (\<lambda>i st'. if kind_of (get_children t item_id ! i) = Loading then st'
                    else toggle_check t st' (item_id @ [i]) s True)
          [0..<length (get_children t item_id)] st"
  by pat_completeness auto
termination
  by (relation "measure (\<lambda>x. case x of
          Inl (t, st, a, s, p) \<Rightarrow> 2 * tree_size_at t a + 1
        | Inr (t, st, a, s) \<Rightarrow> 2 * tree_size_at t a)")
     (auto dest: tree_size_at_child)

declare toggle_check.simps [simp del] update_children_state.simps [simp del]

text \<open>
  \<^verbatim>\<open>on_single_click\<close>, once the click is known to be on the checkbox of the row
  \<open>item_id\<close>: the new state is \<open>Unchecked\<close> when the current one is \<open>Checked\<close>, and
  \<open>Checked\<close> in every other case.
\<close>

definition click_new_state :: "state \<Rightarrow> state" where
  "click_new_state current_state = (if current_state = Checked then Unchecked else Checked)"

section \<open>The filesystem snapshot and the other collaborators\<close>

text \<open>
  A filesystem snapshot. A regular file carries what \<^verbatim>\<open>os.path.getsize\<close> returns
  and what reading it returns (\<open>None\<close> where the call raises \<^verbatim>\<open>OSError\<close>); a
  directory lists its entries in the order the operating system yields them;
  \<open>Denied\<close> is a directory whose listing raises \<^verbatim>\<open>OSError\<close>. Symbolic links are
  not modelled.
\<close>

datatype fsnode = File "nat option" "string option" | Dir "(string \<times> fsnode) list" | Denied

fun lookup :: "fsnode \<Rightarrow> path \<Rightarrow> fsnode option" where
  "lookup n [] = Some n"
| "lookup (Dir es) (x # xs) = (case map_of es x of None \<Rightarrow> None | Some n \<Rightarrow> lookup n xs)"
| "lookup (File sz data) (x # xs) = None"
| "lookup Denied (x # xs) = None"

definition listdir :: "fsnode \<Rightarrow> path \<Rightarrow> string list option" where
  "listdir fsroot p = (case lookup fsroot p of Some (Dir es) \<Rightarrow> Some (map fst es) | _ \<Rightarrow> None)"

definition isdir :: "fsnode \<Rightarrow> path \<Rightarrow> bool" where
  "isdir fsroot p = (case lookup fsroot p of Some (Dir es) \<Rightarrow> True | Some Denied \<Rightarrow> True | _ \<Rightarrow> False)"

text \<open>
  Everything outside the program: the filesystem, \<^verbatim>\<open>Path.resolve\<close>, the text that
  \<^verbatim>\<open>chardet.detect\<close> followed by \<^verbatim>\<open>bytes.decode\<close> produces for the bytes of a
  file (\<open>None\<close> where they raise), and whether opening the output file for writing
  succeeds.
\<close>

record world =
  fs :: fsnode
  resolve :: "path \<Rightarrow> path"
  decode_text :: "string \<Rightarrow> string option"
  output_opens :: bool

section \<open>Settings and the application state\<close>

record settings =
  ignored_dirs :: "string list"
  ignored_exts :: "string list"
  max_size_mb :: real
  include_full_tree :: bool
  checked_paths :: "path list"

definition default_settings :: settings where
  "default_settings =
     \<lparr>ignored_dirs = [''__pycache__'', ''.git'', ''.idea'', ''.vscode'', ''node_modules'',
                       ''dist'', ''build'', ''venv'', ''target''],
      ignored_exts = [''.pyc'', ''.pyd'', ''.so'', ''.dll'', ''.exe'', ''.jpg'', ''.png'', ''.gif'',
                       ''.zip'', ''.rar'', ''.pdf'', ''.db'', ''.lock'', ''.log''],
      max_size_mb = 5,
      include_full_tree = True,
      checked_paths = []\<rparr>"

record config_manager =
  projects :: "path \<rightharpoonup> settings"
  last_used_project :: "path option"

definition get_project_settings :: "world \<Rightarrow> config_manager \<Rightarrow> path \<Rightarrow> settings" where
  "get_project_settings w cm project_path =
     (case projects cm (resolve w project_path) of
        Some project_settings_saved \<Rightarrow> project_settings_saved
      | None \<Rightarrow> default_settings)"

definition save_project_settings :: "world \<Rightarrow> config_manager \<Rightarrow> path \<Rightarrow> settings \<Rightarrow> config_manager" where
  "save_project_settings w cm project_path s =
     cm\<lparr>projects := (projects cm)(resolve w project_path \<mapsto> s),
        last_used_project := Some (resolve w project_path)\<rparr>"

text \<open>
  The fields of \<^verbatim>\<open>ProjectDumperApp\<close> that the selection model and the dump read or
  write. The Treeview is its shape \<open>tree\<close> together with its \<^verbatim>\<open>state\<close> column;
  \<open>path_to_id_map\<close> is the dictionary, in insertion order. \<open>max_size_var\<close> is the value
  \<^verbatim>\<open>float()\<close> gives for the text of the size entry, \<open>None\<close> where it raises
  \<^verbatim>\<open>ValueError\<close>.
\<close>

record app =
  config_manager :: config_manager
  source_dir :: "path option"
  output_file :: path
  path_to_id_map :: "(path \<times> item_id) list"
  tree :: item
  state_column :: "item_id \<Rightarrow> state"
  ignored_dirs_list :: "string list"
  ignored_exts_list :: "string list"
  max_size_var :: "real option"
  include_full_tree_var :: bool

section \<open>Building the tree\<close>

fun modify_at :: "item_id \<Rightarrow> (item \<Rightarrow> item) \<Rightarrow> item \<Rightarrow> item" where
  "modify_at [] f it = f it"
| "modify_at (i # is) f it =
     (if i < length (children it)
      then Item (kind_of it) ((children it)[i := modify_at is f (children it ! i)])
      else it)"

definition tree_insert :: "item \<Rightarrow> item_id \<Rightarrow> item \<Rightarrow> item" where
  "tree_insert t parent_id new_item =
     modify_at parent_id (\<lambda>it. Item (kind_of it) (children it @ [new_item])) t"

definition tree_delete_first :: "item \<Rightarrow> item_id \<Rightarrow> item" where
  "tree_delete_first t parent_id =
     modify_at parent_id (\<lambda>it. Item (kind_of it) (tl (children it))) t"

text \<open>
  \<^verbatim>\<open>_add_node_to_tree\<close>. The new item is appended to the children of \<open>parent_id\<close>, so
  its identifier is the parent's followed by the number of children the parent had.
\<close>

definition add_node_to_tree :: "world \<Rightarrow> app \<Rightarrow> item_id \<Rightarrow> path \<Rightarrow> bool \<Rightarrow> path list \<Rightarrow> app \<times> item_id" where
  "add_node_to_tree w a parent_id path is_root checked =
     (let is_dir = isdir (fs w) path;
          state = (if resolve w path \<in> set checked then Checked else Unchecked);
          item_id = parent_id @ [length (get_children (tree a) parent_id)];
          placeholder = (is_dir \<and> \<not> is_root \<and>
                         (case listdir (fs w) path of Some (x # xs) \<Rightarrow> True | _ \<Rightarrow> False))
      in (a\<lparr>tree := tree_insert (tree a) parent_id
                         (Item (Node path) (if placeholder then [Item Loading []] else [])),
            state_column := (if placeholder
                             then (state_column a)(item_id := state, item_id @ [0] := Blank)
                             else (state_column a)(item_id := state)),
            path_to_id_map := AList.update path item_id (path_to_id_map a)\<rparr>,
          item_id))"

definition add_message :: "app \<Rightarrow> item_id \<Rightarrow> app" where
  "add_message a parent_id =
     a\<lparr>tree := tree_insert (tree a) parent_id (Item Message []),
       state_column := (state_column a)
          (parent_id @ [length (get_children (tree a) parent_id)] := Blank)\<rparr>"

definition add_listing :: "world \<Rightarrow> app \<Rightarrow> item_id \<Rightarrow> path \<Rightarrow> string list \<Rightarrow> path list \<Rightarrow> app" where
  "add_listing w a parent_id path names checked =
     fold (\<lambda>item_name a'. fst (add_node_to_tree w a' parent_id (path @ [item_name]) False checked))
          (sort names) a"

text \<open>\<^verbatim>\<open>populate_tree\<close>: the tree is emptied, then holds the root and its entries.\<close>

definition populate_tree :: "world \<Rightarrow> app \<Rightarrow> path list \<Rightarrow> app" where
  "populate_tree w a cps =
     (let a1 = a\<lparr>tree := Item Top [], state_column := (\<lambda>i. Blank), path_to_id_map := []\<rparr>;
          checked_paths_resolved = map (resolve w) cps
      in case source_dir a of
           None \<Rightarrow> add_message a1 []
         | Some root_path \<Rightarrow>
            (let (a2, root_id) = add_node_to_tree w a1 [] root_path True checked_paths_resolved;
                 a3 = (case listdir (fs w) root_path of
                         Some names \<Rightarrow> add_listing w a2 root_id root_path names checked_paths_resolved
                       | None \<Rightarrow> add_message a2 root_id);
                 cs = get_children (tree a3) root_id
             in if cs \<noteq> []
                then a3\<lparr>state_column :=
                         update_parent_state (tree a3) (state_column a3) (root_id @ [length cs - 1])\<rparr>
                else a3))"

section \<open>Saving and loading the settings of the project\<close>

text \<open>
  \<^verbatim>\<open>_save_settings_for_current_project\<close>: the saved \<^verbatim>\<open>checked_paths\<close> are the
  resolved paths of the entries of \<open>path_to_id_map\<close> whose item exists and whose state
  is not \<^verbatim>\<open>"unchecked"\<close>.
\<close>

definition save_settings_for_current_project :: "world \<Rightarrow> app \<Rightarrow> app" where
  "save_settings_for_current_project w a =
     (case source_dir a of
        None \<Rightarrow> a
      | Some sd \<Rightarrow>
         (let checked = map (\<lambda>(path, iid). resolve w path)
                            (filter (\<lambda>(path, iid). tree_exists (tree a) iid \<and>
                                                   state_column a iid \<noteq> Unchecked)
                                    (path_to_id_map a));
              max_size_val = (case max_size_var a of Some v \<Rightarrow> v | None \<Rightarrow> 5);
              s = \<lparr>ignored_dirs = ignored_dirs_list a, ignored_exts = ignored_exts_list a,
                   max_size_mb = max_size_val, include_full_tree = include_full_tree_var a,
                   checked_paths = checked\<rparr>
          in a\<lparr>config_manager := save_project_settings w (config_manager a) sd s\<rparr>))"

definition load_settings_for_current_project :: "world \<Rightarrow> app \<Rightarrow> app \<times> path list" where
  "load_settings_for_current_project w a =
     (case source_dir a of
        None \<Rightarrow> (a, [])
      | Some sd \<Rightarrow>
         (let s = get_project_settings w (config_manager a) sd
          in (a\<lparr>ignored_dirs_list := ignored_dirs s, ignored_exts_list := ignored_exts s,
                max_size_var := Some (max_size_mb s),
                include_full_tree_var := include_full_tree s\<rparr>,
              checked_paths s)))"

definition set_source_directory :: "world \<Rightarrow> app \<Rightarrow> path \<Rightarrow> app" where
  "set_source_directory w a path =
     (let project_name = (if path = [] then [] else last path);
          a1 = a\<lparr>source_dir := Some path, output_file := path @ [project_name @ ''_dump.txt'']\<rparr>;
          (a2, checked) = load_settings_for_current_project w a1
      in populate_tree w a2 checked)"

definition refresh_tree_view :: "world \<Rightarrow> app \<Rightarrow> app" where
  "refresh_tree_view w a =
     (if source_dir a = None then a
      else let a1 = save_settings_for_current_project w a;
               (a2, checked) = load_settings_for_current_project w a1
           in populate_tree w a2 checked)"

text \<open>
  What a later load reads back as \<^verbatim>\<open>checked_paths\<close> once the settings were saved.
\<close>

definition saved_checked_paths :: "world \<Rightarrow> app \<Rightarrow> path list" where
  "saved_checked_paths w a =
     (case source_dir a of
        None \<Rightarrow> []
      | Some sd \<Rightarrow> checked_paths (get_project_settings w
                     (config_manager (save_settings_for_current_project w a)) sd))"

section \<open>Expanding and clicking\<close>

text \<open>
  \<^verbatim>\<open>on_tree_open\<close> for the focused item \<open>item_id\<close>. The placeholder is the only child
  of the item that holds it, so deleting it moves no other item.
\<close>

definition on_tree_open :: "world \<Rightarrow> app \<Rightarrow> item_id \<Rightarrow> app" where
  "on_tree_open w a item_id =
     (if item_id = [] \<or> \<not> tree_exists (tree a) item_id then a
      else let cs = get_children (tree a) item_id in
        if cs \<noteq> [] \<and> kind_of (hd cs) = Loading then
          (let a1 = a\<lparr>tree := tree_delete_first (tree a) item_id\<rparr>;
               parent_state = state_column a item_id;
               s = (case source_dir a of
                      Some sd \<Rightarrow> get_project_settings w (config_manager a) sd
                    | None \<Rightarrow> default_settings);
               checked_paths_resolved = map (resolve w) (checked_paths s);
               listing = (case item_at (tree a) item_id of
                            Some (Item (Node path) xs) \<Rightarrow>
                              map_option (\<lambda>names. (path, names)) (listdir (fs w) path)
                          | _ \<Rightarrow> None)
           in case listing of
                Some (path, names) \<Rightarrow>
                  (let a2 = add_listing w a1 item_id path names checked_paths_resolved
                   in if parent_state \<noteq> Unchecked
                      then a2\<lparr>state_column :=
                               update_children_state (tree a2) (state_column a2) item_id parent_state\<rparr>
                      else a2)
              | None \<Rightarrow> add_message a1 item_id)
        else a)"

text \<open>
  \<^verbatim>\<open>on_single_click\<close> on the checkbox of the row \<open>item_id\<close>: toggle, then save.
\<close>

definition on_single_click :: "world \<Rightarrow> app \<Rightarrow> item_id \<Rightarrow> app" where
  "on_single_click w a item_id =
     (if item_id = [] then a
      else let current_state = state_column a item_id;
               new_state = click_new_state current_state
           in save_settings_for_current_project w
                (a\<lparr>state_column := toggle_check (tree a) (state_column a) item_id new_state True\<rparr>))"

section \<open>Effective selection\<close>

definition node_state :: "app \<Rightarrow> path \<Rightarrow> state option" where
  "node_state a p =
     (case map_of (path_to_id_map a) p of
        None \<Rightarrow> None
      | Some item_id \<Rightarrow> if tree_exists (tree a) item_id then Some (state_column a item_id) else None)"

text \<open>
  \<^verbatim>\<open>_is_path_selected\<close>: the loop walks from the path to its parents.
\<close>

function is_path_selected :: "app \<Rightarrow> path \<Rightarrow> bool" where
  "is_path_selected a current_path =
     (if node_state a current_path = Some Checked then True
      else if node_state a current_path = Some Unchecked then False
      else if Some current_path = source_dir a then
        (case node_state a current_path of Some s \<Rightarrow> s \<noteq> Unchecked | None \<Rightarrow> False)
      else if butlast current_path = current_path then False
      else is_path_selected a (butlast current_path))"
  by pat_completeness auto
termination
  by (relation "measure (\<lambda>(a, p). length p)") (auto simp: butlast_differs)

declare is_path_selected.simps [simp del]

section \<open>Effective selection as the specification words it\<close>

text \<open>
  The specification's reading of effective selection, to be compared with
  \<open>is_path_selected\<close>: the ancestors of the path, nearest first and the path itself
  included, are looked at up to the source directory (or up to the filesystem root when
  the path is not below the source directory); the first one whose node has the
  explicit state \<open>Checked\<close> or \<open>Unchecked\<close> decides (\<open>effective_selection_spec\<close>). Only
  \<open>Checked\<close> and \<open>Unchecked\<close> are inherited: a node whose state is \<open>Tristate\<close> is passed
  over, the root node included, and the answer is false when no ancestor decides.

  \<open>nearest_explicit_or_root\<close> differs in the last case only: when no ancestor decides
  and the walk reached the source directory, the root node's own state decides, and
  anything but \<open>Unchecked\<close> counts as selected.
\<close>

definition ancestors :: "path \<Rightarrow> path list" where
  "ancestors p = rev (prefixes p)"

definition explicit :: "app \<Rightarrow> path \<Rightarrow> bool" where
  "explicit a q = (node_state a q = Some Checked \<or> node_state a q = Some Unchecked)"

definition walk_chain :: "app \<Rightarrow> path \<Rightarrow> path list" where
  "walk_chain a p =
     (case source_dir a of
        None \<Rightarrow> ancestors p
      | Some sd \<Rightarrow> if sd \<in> set (ancestors p)
                   then takeWhile (\<lambda>q. q \<noteq> sd) (ancestors p) @ [sd]
                   else ancestors p)"

definition effective_selection_spec :: "app \<Rightarrow> path \<Rightarrow> bool" where
  "effective_selection_spec a p =
     (case find (explicit a) (walk_chain a p) of
        Some q \<Rightarrow> node_state a q = Some Checked
      | None \<Rightarrow> False)"

definition nearest_explicit_or_root :: "app \<Rightarrow> path \<Rightarrow> bool" where
  "nearest_explicit_or_root a p =
     (case find (explicit a) (walk_chain a p) of
        Some q \<Rightarrow> node_state a q = Some Checked
      | None \<Rightarrow>
          (case source_dir a of
             None \<Rightarrow> False
           | Some sd \<Rightarrow> sd \<in> set (ancestors p) \<and>
                        (case node_state a sd of Some s \<Rightarrow> s \<noteq> Unchecked | None \<Rightarrow> False)))"

section \<open>The states the application reaches\<close>

text \<open>The kind of the item at a position of the tree, if there is one.\<close>

definition kind_at :: "item \<Rightarrow> item_id \<Rightarrow> kind option" where
  "kind_at t iid = map_option kind_of (item_at t iid)"

text \<open>
  What holds of the tree whatever was loaded, opened and clicked. The root node shows
  the source directory, which is a directory. A \<^verbatim>\<open>loading...\<close> placeholder is the only
  child of a node and has no children. A node that has children shows a directory. A node
  none of whose children is loaded is checked or unchecked.
\<close>

definition shape :: "world \<Rightarrow> app \<Rightarrow> bool" where
  "shape w a \<longleftrightarrow>
     kind_of (tree a) = Top \<and>
     (\<exists>sd. source_dir a = Some sd \<and> isdir (fs w) sd \<and> kind_at (tree a) [0] = Some (Node sd)) \<and>
     (\<forall>c i. kind_at (tree a) (c @ [i]) = Some Loading \<longrightarrow>
        i = 0 \<and> (\<exists>q. kind_at (tree a) c = Some (Node q)) \<and>
        kind_at (tree a) (c @ [1]) = None \<and> kind_at (tree a) ((c @ [0]) @ [0]) = None) \<and>
     (\<forall>c i q. kind_at (tree a) c = Some (Node q) \<longrightarrow> kind_at (tree a) (c @ [i]) \<noteq> None \<longrightarrow>
        isdir (fs w) q) \<and>
     (\<forall>c q. kind_at (tree a) c = Some (Node q) \<longrightarrow>
        (\<forall>i. kind_at (tree a) (c @ [i]) = None \<or> kind_at (tree a) (c @ [i]) = Some Loading) \<longrightarrow>
        state_column a c = Checked \<or> state_column a c = Unchecked)"

text \<open>
  The states of the application on a fixed snapshot: a directory is chosen as the
  source directory (from any state), the tree is refreshed, an item is opened, the
  checkbox of a row is clicked, the settings and the saved configuration are edited.
  The \<^verbatim>\<open>loading...\<close> placeholder is not a row that can be clicked: the directory that
  holds it is opened by \<^verbatim>\<open>on_tree_open\<close>, which replaces it.
\<close>

inductive reachable :: "world \<Rightarrow> app \<Rightarrow> bool" for w :: world where
  load: "isdir (fs w) path \<Longrightarrow> reachable w (set_source_directory w a path)"
| refresh: "reachable w a \<Longrightarrow> reachable w (refresh_tree_view w a)"
| expand: "reachable w a \<Longrightarrow> reachable w (on_tree_open w a item_id)"
| click: "reachable w a \<Longrightarrow> kind_at (tree a) item_id \<noteq> Some Loading \<Longrightarrow>
          reachable w (on_single_click w a item_id)"
| edit: "reachable w a \<Longrightarrow>
         reachable w (a\<lparr>config_manager := cm, ignored_dirs_list := ds, ignored_exts_list := es,
                         max_size_var := ms, include_full_tree_var := b\<rparr>)"

section \<open>Ignored paths\<close>

text \<open>
  \<^verbatim>\<open>str.lower\<close> on the ASCII letters; the bytes of other characters are left as they
  are.
\<close>

definition lower_char :: "char \<Rightarrow> char" where
  "lower_char c =
     (let n = (of_char c :: nat) in if 65 \<le> n \<and> n \<le> 90 then char_of (n + 32) else c)"

definition lower :: "string \<Rightarrow> string" where
  "lower s = map lower_char s"

text \<open>
  \<^verbatim>\<open>Path(p).parts\<close> of an absolute path: the anchor, then the segments.
\<close>

definition parts :: "path \<Rightarrow> string list" where
  "parts p = ''/'' # p"

definition basename :: "path \<Rightarrow> string" where
  "basename p = (if p = [] then [] else last p)"

text \<open>
  \<^verbatim>\<open>os.path.splitext(p)[1]\<close>: the part of the last segment from its last dot on,
  unless only dots precede that dot.
\<close>

definition splitext_ext :: "string \<Rightarrow> string" where
  "splitext_ext name =
     (let stem = rev (tl (dropWhile (\<lambda>c. c \<noteq> CHR ''.'') (rev name)));
          ext = CHR ''.'' # rev (takeWhile (\<lambda>c. c \<noteq> CHR ''.'') (rev name))
      in if CHR ''.'' \<in> set name \<and> (\<exists>c\<in>set stem. c \<noteq> CHR ''.'') then ext else [])"

definition is_path_ignored :: "app \<Rightarrow> path \<Rightarrow> bool" where
  "is_path_ignored a p =
     (let path_lower = map lower p;
          ignored_dirs = set (map lower (ignored_dirs_list a));
          ignored_exts = set (map lower (ignored_exts_list a))
      in if \<exists>part\<in>set (parts path_lower). part \<in> ignored_dirs then True
         else if splitext_ext (basename path_lower) \<in> ignored_exts then True
         else False)"

section \<open>The tree listing\<close>

definition is_dir_node :: "fsnode \<Rightarrow> bool" where
  "is_dir_node n = (case n of File sz data \<Rightarrow> False | _ \<Rightarrow> True)"

definition last_connector :: string where
  "last_connector = [CHR 0xE2, CHR 0x94, CHR 0x94, CHR 0xE2, CHR 0x94, CHR 0x80, CHR '' '']"

definition mid_connector :: string where
  "mid_connector = [CHR 0xE2, CHR 0x94, CHR 0x9C, CHR 0xE2, CHR 0x94, CHR 0x80, CHR '' '']"

definition bar_prefix :: string where
  "bar_prefix = [CHR 0xE2, CHR 0x94, CHR 0x82, CHR '' '', CHR '' '', CHR '' '']"

text \<open>
  \<^verbatim>\<open>recurse_tree\<close> of \<^verbatim>\<open>_generate_file_tree_string\<close>, run on the directory found at
  \<open>p\<close>. Each line is returned together with the path of the entry it was appended
  for; the text of the listing is made of the lines alone.
\<close>

lemma size_entry: "(x, n) \<in> set es \<Longrightarrow> size n < size (Dir es)"
  by (induction es) auto

function recurse_tree :: "app \<Rightarrow> bool \<Rightarrow> path \<Rightarrow> fsnode \<Rightarrow> string \<Rightarrow> (path \<times> string) list" where
  "recurse_tree a full_tree p (Dir es) pre =
     (let entries = sort_key fst es
      in concat (map (\<lambda>i.
           let name = fst (entries ! i); n = snd (entries ! i);
               is_last = (i = length entries - 1);
               connector = (if is_last then last_connector else mid_connector);
               child_path = p @ [name]
           in if \<not> full_tree \<and> (is_path_ignored a child_path \<or> \<not> is_path_selected a child_path)
              then []
              else (child_path, pre @ connector @ name) #
                   (if is_dir_node n
                    then recurse_tree a full_tree child_path n
                           (pre @ (if is_last then ''    '' else bar_prefix))
                    else []))
         [0..<length entries]))"
| "recurse_tree a full_tree p (File sz data) pre = []"
| "recurse_tree a full_tree p Denied pre = []"
  by pat_completeness auto
termination
proof (relation "measure (\<lambda>(a, full_tree, p, n, pre). size n)", goal_cases)
  case 1
  show ?case by simp
next
  case (2 a full_tree p es pre entries i name n is_last connector child_path)
  then have "i < length (sort_key fst es)" by simp
  then have "sort_key fst es ! i \<in> set (sort_key fst es)" by (rule nth_mem)
  then have "(fst (sort_key fst es ! i), snd (sort_key fst es ! i)) \<in> set es" by simp
  then have "size (snd (sort_key fst es ! i)) < size (Dir es)"
    by (rule size_entry)
  with 2 show ?case by simp
qed

definition join :: "string \<Rightarrow> string list \<Rightarrow> string" where
  "join sep xs = (case xs of [] \<Rightarrow> [] | x # r \<Rightarrow> x @ concat (map (\<lambda>y. sep @ y) r))"

text \<open>
  The entries that \<^verbatim>\<open>recurse_tree(self.source_dir, "")\<close> appends, and all the lines of the
  listing: the first line names the source directory itself.
\<close>

definition listed_entries :: "world \<Rightarrow> app \<Rightarrow> bool \<Rightarrow> (path \<times> string) list" where
  "listed_entries w a full_tree =
     (case source_dir a of
        None \<Rightarrow> []
      | Some sd \<Rightarrow> (case lookup (fs w) sd of
                     Some n \<Rightarrow> recurse_tree a full_tree sd n []
                   | None \<Rightarrow> []))"



section \<open>Generating the dump\<close>

text \<open>
  The loop over \<^verbatim>\<open>os.walk(self.source_dir, topdown=True)\<close> of \<^verbatim>\<open>process_files\<close>, run on
  the directory found at \<open>dirpath\<close>: ignored directories are removed from \<^verbatim>\<open>dirnames\<close>
  and so not entered; the files of a directory come before those of its
  sub-directories. A directory that cannot be listed yields nothing.
\<close>

fun walk_files :: "app \<Rightarrow> path \<Rightarrow> fsnode \<Rightarrow> path list" where
  "walk_files a dirpath (Dir es) =
     (let filenames = map fst (filter (\<lambda>e. \<not> is_dir_node (snd e)) es);
          dirs = filter (\<lambda>e. is_dir_node (snd e) \<and> \<not> is_path_ignored a (dirpath @ [fst e])) es
      in filter (\<lambda>filepath. \<not> is_path_ignored a filepath \<and> is_path_selected a filepath)
                (map (\<lambda>filename. dirpath @ [filename]) filenames) @
         concat (map (\<lambda>e. walk_files a (dirpath @ [fst e]) (snd e)) dirs))"
| "walk_files a dirpath (File sz data) = []"
| "walk_files a dirpath Denied = []"

definition files_to_process :: "world \<Rightarrow> app \<Rightarrow> path list" where
  "files_to_process w a =
     (case source_dir a of
        None \<Rightarrow> []
      | Some sd \<Rightarrow> (case lookup (fs w) sd of Some n \<Rightarrow> walk_files a sd n | None \<Rightarrow> []))"

definition getsize :: "world \<Rightarrow> path \<Rightarrow> nat option" where
  "getsize w p = (case lookup (fs w) p of Some (File sz data) \<Rightarrow> sz | _ \<Rightarrow> None)"

definition read_file :: "world \<Rightarrow> path \<Rightarrow> string option" where
  "read_file w p = (case lookup (fs w) p of Some (File sz data) \<Rightarrow> data | _ \<Rightarrow> None)"

text \<open>\<^verbatim>\<open>_is_binary_file\<close>: a file that cannot be read counts as binary.\<close>

definition is_binary_file :: "world \<Rightarrow> path \<Rightarrow> bool" where
  "is_binary_file w p =
     (case read_file w p of Some data \<Rightarrow> CHR 0x00 \<in> set (take 1024 data) | None \<Rightarrow> True)"

definition relpath :: "path \<Rightarrow> path option \<Rightarrow> string" where
  "relpath p start = join ''/'' (case start of Some sd \<Rightarrow> drop (length sd) p | None \<Rightarrow> p)"

definition file_block :: "string \<Rightarrow> string \<Rightarrow> string" where
  "file_block relative_path content =
     ''--- START OF FILE: '' @ relative_path @ '' ---'' @ [CHR 0x0A, CHR 0x0A] @
     content @
     [CHR 0x0A, CHR 0x0A] @ ''--- END OF FILE: '' @ relative_path @ '' ---'' @ [CHR 0x0A, CHR 0x0A]"


text \<open>
  What one round of the loop over \<^verbatim>\<open>files_to_process\<close> does with a file: \<open>Skipped\<close>
  (one of the three \<^verbatim>\<open>continue\<close> statements), \<open>Failed\<close> (the \<^verbatim>\<open>except\<close> branch, which
  logs), or \<open>Written\<close> with the text appended to the output.
\<close>

datatype outcome = Skipped | Failed | Written string

definition process_one :: "world \<Rightarrow> app \<Rightarrow> real \<Rightarrow> path \<Rightarrow> outcome" where
  "process_one w a max_size filepath =
     (case getsize w filepath of
        None \<Rightarrow> Skipped
      | Some sz \<Rightarrow>
          if real sz > max_size then Skipped
          else if is_binary_file w filepath then Skipped
          else (case read_file w filepath of
                  None \<Rightarrow> Failed
                | Some raw_data \<Rightarrow>
                    (case decode_text w raw_data of
                       None \<Rightarrow> Failed
                     | Some content \<Rightarrow>
                         Written (file_block (relpath filepath (source_dir a)) content))))"










definition is_written :: "outcome \<Rightarrow> bool" where
  "is_written r = (case r of Written block \<Rightarrow> True | _ \<Rightarrow> False)"


text \<open>The files whose contents reach the output, in the order they are written.\<close>

definition files_written :: "world \<Rightarrow> app \<Rightarrow> path list" where
  "files_written w a =
     (case max_size_var a of
        None \<Rightarrow> []
      | Some mb \<Rightarrow>
          if \<not> output_opens w then []
          else filter (\<lambda>f. is_written (process_one w a (mb * 1024 * 1024) f))
                      (files_to_process w a))"

section \<open>A sample project\<close>

text \<open>
  The project \<^verbatim>\<open>/proj\<close> with the entries \<^verbatim>\<open>a.txt\<close>, \<^verbatim>\<open>big.txt\<close>, \<^verbatim>\<open>gone.txt\<close> (a file
  that can be neither measured nor read), \<^verbatim>\<open>node_modules/x.js\<close>, \<^verbatim>\<open>sub/b.py\<close> and
  \<^verbatim>\<open>sub/c.bin\<close> (which holds a NUL byte), listed by the operating system in an order that
  is not sorted. \<open>loaded\<close> is the application after this directory was chosen,
  \<open>expanded\<close> after \<^verbatim>\<open>sub\<close> was opened, \<open>clicked\<close> after the checkbox of \<^verbatim>\<open>sub/b.py\<close>
  was clicked.
\<close>

definition sample_fs :: fsnode where
  "sample_fs = Dir [(''proj'', Dir
     [(''sub'', Dir [(''c.bin'', File (Some 2) (Some [CHR 0x00, CHR ''x''])),
                     (''b.py'', File (Some 2) (Some ''hi''))]),
      (''a.txt'', File (Some 3) (Some ''abc'')),
      (''node_modules'', Dir [(''x.js'', File (Some 1) (Some ''x''))]),
      (''big.txt'', File (Some 10) (Some ''0123456789'')),
      (''gone.txt'', File None None)])]"

definition sample_world :: world where
  "sample_world = \<lparr>fs = sample_fs, resolve = (\<lambda>p. p), decode_text = Some, output_opens = True\<rparr>"

definition initial_app :: app where
  "initial_app =
     \<lparr>config_manager = \<lparr>projects = Map.empty, last_used_project = None\<rparr>,
      source_dir = None, output_file = [], path_to_id_map = [],
      tree = Item Top [Item Message []], state_column = (\<lambda>i. Blank),
      ignored_dirs_list = [], ignored_exts_list = [], max_size_var = None,
      include_full_tree_var = False\<rparr>"

definition loaded :: app where
  "loaded = set_source_directory sample_world initial_app [''proj'']"

definition expanded :: app where
  "expanded = on_tree_open sample_world loaded [0, 4]"

definition clicked :: app where
  "clicked = on_single_click sample_world expanded [0, 4, 0]"

text \<open>
  The same project where \<^verbatim>\<open>/proj/sub\<close> is a link to \<^verbatim>\<open>/proj/real\<close>, so that
  \<^verbatim>\<open>Path.resolve\<close> is not the identity, and the application after the same three steps.
\<close>

definition linked_world :: world where
  "linked_world = sample_world\<lparr>resolve :=
     (\<lambda>p. if take 2 p = [''proj'', ''sub''] then [''proj'', ''real''] @ drop 2 p else p)\<rparr>"

definition clicked_linked :: app where
  "clicked_linked =
     on_single_click linked_world
       (on_tree_open linked_world (set_source_directory linked_world initial_app [''proj'']) [0, 4])
       [0, 4, 0]"

text \<open>
  The application started on the sample project with saved settings: every entry of
  the project directory is checked and the size limit is 8 bytes (\<^verbatim>\<open>1 / 131072\<close> MB).
  \<open>decode_fails\<close> is the sample world where decoding the bytes of \<^verbatim>\<open>a.txt\<close> raises;
  \<open>shouting\<close> is the application whose list of ignored directories holds the one
  name \<^verbatim>\<open>Node_Modules\<close>.
\<close>

definition saved_config :: config_manager where
  "saved_config =
     \<lparr>projects = [[''proj''] \<mapsto> default_settings\<lparr>max_size_mb := 1 / 131072, checked_paths :=
         [[''proj'', ''a.txt''], [''proj'', ''big.txt''], [''proj'', ''gone.txt''],
          [''proj'', ''node_modules''], [''proj'', ''sub'']]\<rparr>],
      last_used_project = Some [''proj'']\<rparr>"

definition restored :: app where
  "restored = set_source_directory sample_world (initial_app\<lparr>config_manager := saved_config\<rparr>)
                [''proj'']"


definition shouting :: app where
  "shouting = restored\<lparr>ignored_dirs_list := [''Node_Modules'']\<rparr>"

text \<open>
  The sample project with \<^verbatim>\<open>sub\<close> opened while it is checked.
\<close>

definition restored_expanded :: app where
  "restored_expanded = on_tree_open sample_world restored [0, 4]"

section \<open>Properties of the propagation\<close>

lemma strict_prefix_butlast:
  "a \<noteq> [] \<Longrightarrow> strict_prefix c a \<longleftrightarrow> prefix c (butlast a)"
  by (cases a rule: rev_cases) (auto simp: strict_prefix_def prefix_snoc)

lemma ups_frame:
  "\<not> (strict_prefix c a \<and> c \<noteq> []) \<Longrightarrow> update_parent_state t st a c = st c"
proof (induction t st a rule: update_parent_state.induct)
  case (1 t st item_id)
  show ?case
  proof (cases "butlast item_id = [] \<or> get_children t (butlast item_id) = []")
    case True
    then show ?thesis by (subst update_parent_state.simps) (auto simp: Let_def)
  next
    case False
    then have ne: "item_id \<noteq> []" by auto
    from "1.prems" ne have a: "\<not> (prefix c (butlast item_id) \<and> c \<noteq> [])"
      by (simp add: strict_prefix_butlast)
    then have "\<not> (strict_prefix c (butlast item_id) \<and> c \<noteq> [])"
      by (auto simp: strict_prefix_def)
    moreover have "c \<noteq> butlast item_id"
      using a False by auto
    ultimately show ?thesis
      using False "1.IH"[OF refl]
      by (subst update_parent_state.simps) (simp add: Let_def fun_upd_def)
  qed
qed

lemma child_states_cong:
  "(\<And>i. i < length (get_children t q) \<Longrightarrow> st (q @ [i]) = st' (q @ [i])) \<Longrightarrow>
   child_states t st q = child_states t st' q"
  by (auto simp: child_states_def Let_def)

lemma exists_prefix:
  "tree_exists t (a @ b) \<Longrightarrow> tree_exists t a"
  by (auto simp: tree_exists_def item_at_append split: option.splits)

lemma exists_butlast:
  "tree_exists t a \<Longrightarrow> tree_exists t (butlast a)"
  by (cases a rule: rev_cases) (auto dest: exists_prefix)

lemma exists_snoc:
  "tree_exists t (a @ [i]) \<longleftrightarrow> i < length (get_children t a)"
  by (auto simp: tree_exists_def get_children_def item_at_append split: option.splits)

lemma ups_consistent:
  "tree_exists t a \<Longrightarrow> strict_prefix q a \<Longrightarrow> q \<noteq> [] \<Longrightarrow>
   update_parent_state t st a q = common_state (child_states t (update_parent_state t st a) q)"
proof (induction t st a rule: update_parent_state.induct)
  case (1 t st item_id)
  let ?p = "butlast item_id"
  from "1.prems" have ne: "item_id \<noteq> []" by auto
  then have eq: "item_id = ?p @ [last item_id]" by simp
  from "1.prems"(2) ne have qp: "prefix q ?p" by (simp add: strict_prefix_butlast)
  with "1.prems"(3) have pne: "?p \<noteq> []" by auto
  from "1.prems"(1) eq have "last item_id < length (get_children t ?p)"
    by (metis exists_snoc)
  then have cne: "get_children t ?p \<noteq> []" by auto
  let ?v = "common_state (child_states t st ?p)"
  let ?st' = "st(?p := ?v)"
  let ?R = "update_parent_state t ?st' ?p"
  have unf: "update_parent_state t st item_id = ?R"
    using pne cne by (subst update_parent_state.simps) (simp add: Let_def)
  show ?case
  proof (cases "q = ?p")
    case True
    have "?R ?p = ?st' ?p" by (rule ups_frame) simp
    moreover have "child_states t ?R ?p = child_states t st ?p"
    proof (rule child_states_cong)
      fix i
      have "?R (?p @ [i]) = ?st' (?p @ [i])"
        by (rule ups_frame) (auto simp: strict_prefix_def)
      then show "?R (?p @ [i]) = st (?p @ [i])" by simp
    qed
    ultimately show ?thesis using True unf by simp
  next
    case False
    with qp have "strict_prefix q ?p" by (simp add: strict_prefix_def)
    moreover have "tree_exists t ?p" using "1.prems"(1) by (rule exists_butlast)
    ultimately have "?R q = common_state (child_states t ?R q)"
      using "1.IH"[OF refl pne cne refl] "1.prems"(3) by (simp add: fun_upd_def)
    then show ?thesis using unf by simp
  qed
qed

lemma fold_invariant:
  "Q s \<Longrightarrow> (\<And>x s. x \<in> set xs \<Longrightarrow> Q s \<Longrightarrow> Q (f x s)) \<Longrightarrow> Q (fold f xs s)"
  by (induction xs arbitrary: s) auto

definition comparable :: "item_id \<Rightarrow> item_id \<Rightarrow> bool" where
  "comparable a c = (prefix a c \<or> prefix c a)"

lemma comparable_snoc: "comparable (a @ [i]) c \<Longrightarrow> comparable a c"
  by (auto simp: comparable_def prefix_snoc dest: append_prefixD)

lemma toggle_frame: "\<not> comparable a c \<Longrightarrow> toggle_check t st a s p c = st c"
  and children_frame: "\<not> comparable a c \<Longrightarrow> update_children_state t st a s c = st c"
proof (induction t st a s p and t st a s rule: toggle_check_update_children_state.induct)
  case (1 t st item_id s propagate)
  show ?case
  proof -
    note nc = "1.prems"
    then have ne: "c \<noteq> item_id" by (auto simp: comparable_def)
    have nsp: "\<not> (strict_prefix c item_id \<and> c \<noteq> [])"
      using nc by (auto simp: comparable_def strict_prefix_def)
    show "toggle_check t st item_id s propagate c = st c"
    proof (cases "tree_exists t item_id \<and> propagate")
      case True
      then have "update_children_state t (st(item_id := s)) item_id s c = (st(item_id := s)) c"
        using "1.IH"[OF _ refl] nc by (simp add: fun_upd_def)
      then show ?thesis
        using True ne nsp by (subst toggle_check.simps) (simp add: Let_def ups_frame)
    next
      case False
      then show ?thesis using ne by (subst toggle_check.simps) (auto simp: Let_def)
    qed
  qed
next
  case (2 t st item_id s)
  show ?case
  proof -
    note nc = "2.prems"
    show "update_children_state t st item_id s c = st c"
      unfolding update_children_state.simps[of t st item_id s]
    proof (rule fold_invariant[where Q = "\<lambda>r. r c = st c"])
      show "st c = st c" by simp
    next
      fix x r
      assume x: "x \<in> set [0..<length (get_children t item_id)]" and r: "r c = st c"
      have "\<not> comparable (item_id @ [x]) c" using nc comparable_snoc by blast
      then show "(if kind_of (get_children t item_id ! x) = Loading then r
                  else toggle_check t r (item_id @ [x]) s True) c = st c"
        using "2.IH"[OF x, of r] r by auto
    qed
  qed
qed

fun loaded_below :: "item \<Rightarrow> nat list \<Rightarrow> bool" where
  "loaded_below it [] = True"
| "loaded_below it (i # is) =
     (i < length (children it) \<and> kind_of (children it ! i) \<noteq> Loading \<and>
      loaded_below (children it ! i) is)"

lemma remdups_all_same: "xs \<noteq> [] \<Longrightarrow> \<forall>x\<in>set xs. x = s \<Longrightarrow> remdups xs = [s]"
proof (induction xs)
  case Nil
  then show ?case by simp
next
  case (Cons x xs)
  from Cons.prems(2) have xs: "x = s" and rest: "\<forall>y\<in>set xs. y = s" by simp_all
  show ?case
  proof (cases "xs = []")
    case True
    with xs show ?thesis by simp
  next
    case False
    then have r: "remdups xs = [s]" using rest by (rule Cons.IH)
    from False obtain y ys where "xs = y # ys" by (cases xs) auto
    with rest have "s \<in> set xs" by auto
    with r xs show ?thesis by simp
  qed
qed

lemma common_state_all: "xs \<noteq> [] \<Longrightarrow> \<forall>x\<in>set xs. x = s \<Longrightarrow> common_state xs = s"
  using remdups_all_same[of xs s] by (simp add: common_state_def)

lemma get_children_Some: "item_at t a = Some it \<Longrightarrow> get_children t a = children it"
  by (simp add: get_children_def)

lemma not_comparable_siblings: "i \<noteq> k \<Longrightarrow> \<not> comparable (a @ [k]) (a @ i # r)"
  by (auto simp: comparable_def prefix_def)

lemma toggle_unfold_child:
  "k < length (get_children t a) \<Longrightarrow>
   toggle_check t st (a @ [k]) s True =
   update_parent_state t (update_children_state t (st(a @ [k] := s)) (a @ [k]) s) (a @ [k])"
  by (subst toggle_check.simps) (simp add: exists_snoc Let_def)

lemma children_fold_inv:
  assumes IH: "\<And>x st' r. x < length (get_children t a) \<Longrightarrow>
                 kind_of (get_children t a ! x) \<noteq> Loading \<Longrightarrow>
                 loaded_below (get_children t a ! x) r \<Longrightarrow>
                 toggle_check t st' (a @ [x]) s True ((a @ [x]) @ r) = s"
    and k: "k \<le> length (get_children t a)"
  defines "f \<equiv> (\<lambda>i st'. if kind_of (get_children t a ! i) = Loading then st'
                    else toggle_check t st' (a @ [i]) s True)"
  shows "(\<forall>i<k. kind_of (get_children t a ! i) \<noteq> Loading \<longrightarrow>
            (\<forall>r. loaded_below (get_children t a ! i) r \<longrightarrow> fold f [0..<k] st (a @ i # r) = s)) \<and>
         (a \<noteq> [] \<longrightarrow>
            (if \<exists>i<k. kind_of (get_children t a ! i) \<noteq> Loading
             then fold f [0..<k] st a = common_state (child_states t (fold f [0..<k] st) a)
             else fold f [0..<k] st a = st a))"
  using k
proof (induction k)
  case 0
  then show ?case by simp
next
  case (Suc k)
  let ?F = "fold f [0..<k] st"
  from Suc.prems have kn: "k < length (get_children t a)" by simp
  from kn have kle: "k \<le> length (get_children t a)" by simp
  note ih = Suc.IH[OF kle]
  have ih1: "?F (a @ i # r) = s" if "i < k" "kind_of (get_children t a ! i) \<noteq> Loading"
       "loaded_below (get_children t a ! i) r" for i r
    using ih[THEN conjunct1] that by blast
  have ih2: "if \<exists>i<k. kind_of (get_children t a ! i) \<noteq> Loading
             then ?F a = common_state (child_states t ?F a) else ?F a = st a" if "a \<noteq> []"
    using ih[THEN conjunct2] that by blast
  have step: "fold f [0..<Suc k] st = f k ?F" by simp
  show ?case
  proof (cases "kind_of (get_children t a ! k) = Loading")
    case True
    then have same: "fold f [0..<Suc k] st = ?F" using step by (simp add: f_def)
    have lt: "i < k" if "i < Suc k" "kind_of (get_children t a ! i) \<noteq> Loading" for i
      using True that by (metis less_Suc_eq)
    have exeq: "(\<exists>i<Suc k. kind_of (get_children t a ! i) \<noteq> Loading) =
                   (\<exists>i<k. kind_of (get_children t a ! i) \<noteq> Loading)"
      using True by (metis less_Suc_eq)
    show ?thesis unfolding same exeq
    proof (intro conjI allI impI)
      fix i r
      assume "i < Suc k" "kind_of (get_children t a ! i) \<noteq> Loading"
        "loaded_below (get_children t a ! i) r"
      then show "?F (a @ i # r) = s" using ih1 lt by blast
    next
      assume "a \<noteq> []"
      then show "if \<exists>i<k. kind_of (get_children t a ! i) \<noteq> Loading
             then ?F a = common_state (child_states t ?F a) else ?F a = st a"
        by (rule ih2)
    qed
  next
    case False
    then have new: "fold f [0..<Suc k] st = toggle_check t ?F (a @ [k]) s True"
      using step by (simp add: f_def)
    have c1: "toggle_check t ?F (a @ [k]) s True (a @ i # r) = s"
      if "i < Suc k" "kind_of (get_children t a ! i) \<noteq> Loading"
         "loaded_below (get_children t a ! i) r" for i r
    proof (cases "i = k")
      case True
      then show ?thesis using IH[OF kn False, of r ?F] that by simp
    next
      case False
      then have "toggle_check t ?F (a @ [k]) s True (a @ i # r) = ?F (a @ i # r)"
        by (intro toggle_frame not_comparable_siblings)
      with that False ih1 show ?thesis by simp
    qed
    have c2: "toggle_check t ?F (a @ [k]) s True a =
              common_state (child_states t (toggle_check t ?F (a @ [k]) s True) a)" if "a \<noteq> []"
      unfolding toggle_unfold_child[OF kn]
      by (rule ups_consistent) (use that kn in \<open>auto simp: exists_snoc strict_prefix_def\<close>)
    have ex: "\<exists>i<Suc k. kind_of (get_children t a ! i) \<noteq> Loading" using False by blast
    show ?thesis unfolding new
    proof (intro conjI allI impI)
      fix i r
      assume "i < Suc k" "kind_of (get_children t a ! i) \<noteq> Loading"
        "loaded_below (get_children t a ! i) r"
      then show "toggle_check t ?F (a @ [k]) s True (a @ i # r) = s" by (rule c1)
    next
      assume "a \<noteq> []"
      then show "if \<exists>i<Suc k. kind_of (get_children t a ! i) \<noteq> Loading
             then toggle_check t ?F (a @ [k]) s True a =
                  common_state (child_states t (toggle_check t ?F (a @ [k]) s True) a)
             else toggle_check t ?F (a @ [k]) s True a = st a"
        using c2 ex by (simp only: if_True not_False_eq_True)
    qed
  qed
qed

lemma item_at_child:
  "x < length (get_children t a) \<Longrightarrow> item_at t (a @ [x]) = Some (get_children t a ! x)"
  by (auto simp: get_children_def item_at_append split: option.splits)

lemma toggle_subtree_aux:
  "p \<longrightarrow> a \<noteq> [] \<longrightarrow>
     (\<forall>it r. item_at t a = Some it \<longrightarrow> loaded_below it r \<longrightarrow> toggle_check t st a s p (a @ r) = s)"
  and children_subtree_aux:
  "(\<forall>it r. item_at t a = Some it \<longrightarrow> r \<noteq> [] \<longrightarrow> loaded_below it r \<longrightarrow>
       update_children_state t st a s (a @ r) = s) \<and>
   (a \<noteq> [] \<longrightarrow> st a = s \<longrightarrow> update_children_state t st a s a = s)"
proof (induction t st a s p and t st a s rule: toggle_check_update_children_state.induct)
  case (1 t st item_id s propagate)
  show ?case
  proof (intro impI allI)
    fix it r
    assume p: propagate and ne: "item_id \<noteq> []" and it: "item_at t item_id = Some it"
      and lb: "loaded_below it r"
    from it have ex: "tree_exists t item_id" by (simp add: tree_exists_def)
    let ?st1 = "st(item_id := s)"
    let ?R = "update_children_state t ?st1 item_id s"
    have unf: "toggle_check t st item_id s propagate = update_parent_state t ?R item_id"
      using ex p by (subst toggle_check.simps) (simp add: Let_def)
    have fr: "update_parent_state t ?R item_id (item_id @ r) = ?R (item_id @ r)"
      by (rule ups_frame) (auto simp: strict_prefix_def)
    have ih: "(\<forall>it r. item_at t item_id = Some it \<longrightarrow> r \<noteq> [] \<longrightarrow> loaded_below it r \<longrightarrow>
                 ?R (item_id @ r) = s) \<and> (item_id \<noteq> [] \<longrightarrow> ?st1 item_id = s \<longrightarrow> ?R item_id = s)"
      using "1.IH"[OF _ refl p] ex by (simp add: fun_upd_def)
    have "?R (item_id @ r) = s"
    proof (cases "r = []")
      case True
      then show ?thesis using ih ne by simp
    next
      case False
      then show ?thesis using ih it lb by blast
    qed
    then show "toggle_check t st item_id s propagate (item_id @ r) = s"
      using unf fr by simp
  qed
next
  case (2 t st item_id s)
  let ?n = "length (get_children t item_id)"
  let ?f = "\<lambda>i st'. if kind_of (get_children t item_id ! i) = Loading then st'
                    else toggle_check t st' (item_id @ [i]) s True"
  let ?R = "update_children_state t st item_id s"
  have Rdef: "?R = fold ?f [0..<?n] st" by (simp add: update_children_state.simps)
  have IH: "toggle_check t st' (item_id @ [x]) s True ((item_id @ [x]) @ r) = s"
    if "x < ?n" "kind_of (get_children t item_id ! x) \<noteq> Loading"
       "loaded_below (get_children t item_id ! x) r" for x st' r
  proof -
    from that(1) have "x \<in> set [0..<?n]" by simp
    from "2.IH"[OF this that(2), of st'] item_at_child[OF that(1)] that(3)
    show ?thesis by blast
  qed
  have inv: "(\<forall>i<?n. kind_of (get_children t item_id ! i) \<noteq> Loading \<longrightarrow>
            (\<forall>r. loaded_below (get_children t item_id ! i) r \<longrightarrow> ?R (item_id @ i # r) = s)) \<and>
         (item_id \<noteq> [] \<longrightarrow>
            (if \<exists>i<?n. kind_of (get_children t item_id ! i) \<noteq> Loading
             then ?R item_id = common_state (child_states t ?R item_id)
             else ?R item_id = st item_id))"
    unfolding Rdef by (rule children_fold_inv[OF IH]) auto
  have sub: "?R (item_id @ i # r) = s"
    if "i < ?n" "kind_of (get_children t item_id ! i) \<noteq> Loading"
       "loaded_below (get_children t item_id ! i) r" for i r
    using inv that by blast
  show ?case
  proof (intro conjI allI impI)
    fix it r
    assume it: "item_at t item_id = Some it" and r: "r \<noteq> []" and lb: "loaded_below it r"
    from r obtain i r' where rr: "r = i # r'" by (cases r) auto
    from it have gc: "get_children t item_id = children it" by (rule get_children_Some)
    from lb rr gc show "?R (item_id @ r) = s" using sub[of i r'] by simp
  next
    assume ne: "item_id \<noteq> []" and sa: "st item_id = s"
    show "?R item_id = s"
    proof (cases "\<exists>i<?n. kind_of (get_children t item_id ! i) \<noteq> Loading")
      case False
      with inv ne sa show ?thesis by simp
    next
      case True
      with inv ne have eq: "?R item_id = common_state (child_states t ?R item_id)" by simp
      let ?idx = "filter (\<lambda>i. kind_of (get_children t item_id ! i) \<noteq> Loading) [0..<?n]"
      have cs: "child_states t ?R item_id = map (\<lambda>i. ?R (item_id @ [i])) ?idx"
        by (simp add: child_states_def Let_def)
      from True have "?idx \<noteq> []" by (auto simp: filter_empty_conv)
      then have nonempty: "child_states t ?R item_id \<noteq> []" using cs by simp
      have "\<forall>x\<in>set (child_states t ?R item_id). x = s"
      proof
        fix x assume "x \<in> set (child_states t ?R item_id)"
        then obtain i where i: "i < ?n" "kind_of (get_children t item_id ! i) \<noteq> Loading"
          and x: "x = ?R (item_id @ [i])" unfolding cs by auto
        from sub[OF i, of "[]"] x show "x = s" by simp
      qed
      with nonempty have "common_state (child_states t ?R item_id) = s"
        by (rule common_state_all)
      with eq show ?thesis by simp
    qed
  qed
qed

lemma toggle_subtree:
  "a \<noteq> [] \<Longrightarrow> item_at t a = Some it \<Longrightarrow> loaded_below it r \<Longrightarrow>
   toggle_check t st a s True (a @ r) = s"
  using toggle_subtree_aux[of True a t st s] by blast

lemma common_state_cases:
  "(remdups xs = [common_state xs]) \<or> common_state xs = Tristate"
  by (cases "remdups xs" rule: list.exhaust; simp add: common_state_def split: list.splits)

lemma common_state_mem: "x \<in> set xs \<Longrightarrow> common_state xs = x \<or> common_state xs = Tristate"
proof -
  assume x: "x \<in> set xs"
  from common_state_cases[of xs] show ?thesis
  proof
    assume "remdups xs = [common_state xs]"
    then have "set (remdups xs) = {common_state xs}" by simp
    then have "set xs = {common_state xs}" by simp
    with x show ?thesis by auto
  qed simp
qed

lemma common_state_eq_iff:
  assumes "xs \<noteq> []" "s \<noteq> Tristate"
  shows "common_state xs = s \<longleftrightarrow> (\<forall>x\<in>set xs. x = s)"
proof
  assume eq: "common_state xs = s"
  from common_state_cases[of xs] eq assms(2) have "remdups xs = [s]" by auto
  then have "set (remdups xs) = {s}" by simp
  then have "set xs = {s}" by simp
  then show "\<forall>x\<in>set xs. x = s" by auto
next
  assume "\<forall>x\<in>set xs. x = s"
  with assms(1) show "common_state xs = s" by (rule common_state_all)
qed

lemma child_states_mem:
  "i < length (get_children t q) \<Longrightarrow> kind_of (get_children t q ! i) \<noteq> Loading \<Longrightarrow>
   st (q @ [i]) \<in> set (child_states t st q)"
  by (auto simp: child_states_def Let_def)

lemma loaded_below_append:
  "loaded_below it (a @ b) \<longleftrightarrow>
     loaded_below it a \<and> (case item_at it a of None \<Rightarrow> False | Some it' \<Rightarrow> loaded_below it' b)"
  by (induction a arbitrary: it) auto

lemma loaded_below_exists: "loaded_below it a \<Longrightarrow> item_at it a \<noteq> None"
  by (induction a arbitrary: it) auto

lemma loaded_below_snoc:
  "loaded_below t (q @ [i]) \<Longrightarrow>
   i < length (get_children t q) \<and> kind_of (get_children t q ! i) \<noteq> Loading \<and> loaded_below t q"
  by (auto simp: loaded_below_append get_children_def split: option.splits)

lemma toggle_at_item:
  assumes "a \<noteq> []" "tree_exists t a"
  shows "toggle_check t st a s True a = s"
proof -
  from assms(2) obtain it where "item_at t a = Some it" by (auto simp: tree_exists_def)
  from toggle_subtree[OF assms(1) this, of "[]" st s] show ?thesis by simp
qed

lemma toggle_ancestor_consistent:
  assumes "tree_exists t a" "strict_prefix q a" "q \<noteq> []"
  shows "toggle_check t st a s True q =
         common_state (child_states t (toggle_check t st a s True) q)"
proof -
  have unf: "toggle_check t st a s True =
             update_parent_state t (update_children_state t (st(a := s)) a s) a"
    using assms(1) by (subst toggle_check.simps) (simp add: Let_def)
  show ?thesis unfolding unf using assms by (rule ups_consistent)
qed

lemma toggle_ancestor_values:
  "q \<noteq> [] \<Longrightarrow> loaded_below t (q @ r) \<Longrightarrow>
   toggle_check t st (q @ r) s True q = s \<or> toggle_check t st (q @ r) s True q = Tristate"
proof (induction r arbitrary: q)
  case Nil
  then have "tree_exists t q" by (auto simp: tree_exists_def dest: loaded_below_exists)
  with Nil show ?case by (simp add: toggle_at_item)
next
  case (Cons i r)
  let ?a = "q @ i # r"
  let ?st' = "toggle_check t st ?a s True"
  have a: "?a = (q @ [i]) @ r" by simp
  from Cons.prems(2) have lb: "loaded_below t ((q @ [i]) @ r)" by simp
  then have ih: "?st' (q @ [i]) = s \<or> ?st' (q @ [i]) = Tristate"
    using Cons.IH[of "q @ [i]"] by simp
  from lb have "loaded_below t (q @ [i])" by (simp only: loaded_below_append)
  then have mem: "?st' (q @ [i]) \<in> set (child_states t ?st' q)"
    by (intro child_states_mem) (auto dest: loaded_below_snoc)
  from Cons.prems(2) have ex: "tree_exists t ?a"
    by (auto simp: tree_exists_def dest: loaded_below_exists)
  have "strict_prefix q ?a" by (simp add: strict_prefix_def)
  with ex Cons.prems(1) have "?st' q = common_state (child_states t ?st' q)"
    by (intro toggle_ancestor_consistent)
  with common_state_mem[OF mem] ih show ?case by auto
qed

lemma save_settings_keeps [simp]:
  "tree (save_settings_for_current_project w a) = tree a"
  "state_column (save_settings_for_current_project w a) = state_column a"
  "path_to_id_map (save_settings_for_current_project w a) = path_to_id_map a"
  "source_dir (save_settings_for_current_project w a) = source_dir a"
  by (simp_all add: save_settings_for_current_project_def Let_def split: option.splits)

section \<open>Claims about toggling\<close>

text \<open>
  C6. After a toggle of a displayed item to \<open>Checked\<close> or \<open>Unchecked\<close>, every ancestor
  \<open>q\<close> of the toggled item, up to the root node, has state \<open>Checked\<close> exactly when all
  its children other than the placeholder are \<open>Checked\<close>, state \<open>Unchecked\<close> exactly
  when they all are \<open>Unchecked\<close>, and state \<open>Tristate\<close> in every other case. The
  states on both sides are those after the toggle, so the ancestors are consistent
  bottom-up. \<open>loaded_below t item_id\<close> says that the toggled item exists and that
  neither it nor an item above it is the placeholder.
\<close>

theorem toggle_recomputes_ancestors:
  assumes "loaded_below t item_id" "s = Checked \<or> s = Unchecked"
    and "strict_prefix q item_id" "q \<noteq> []"
  shows "(toggle_check t st item_id s True q = Checked \<longleftrightarrow>
            (\<forall>x\<in>set (child_states t (toggle_check t st item_id s True) q). x = Checked)) \<and>
         (toggle_check t st item_id s True q = Unchecked \<longleftrightarrow>
            (\<forall>x\<in>set (child_states t (toggle_check t st item_id s True) q). x = Unchecked)) \<and>
         (toggle_check t st item_id s True q \<noteq> Checked \<and>
          toggle_check t st item_id s True q \<noteq> Unchecked \<longrightarrow>
            toggle_check t st item_id s True q = Tristate)"
proof -
  let ?st' = "toggle_check t st item_id s True"
  from assms(3) obtain r where r: "item_id = q @ r" "r \<noteq> []"
    by (auto simp: strict_prefix_def prefix_def)
  then obtain i r' where ir: "r = i # r'" by (cases r) auto
  from assms(1) have ex: "tree_exists t item_id"
    by (auto simp: tree_exists_def dest: loaded_below_exists)
  have cons: "?st' q = common_state (child_states t ?st' q)"
    using ex assms(3,4) by (rule toggle_ancestor_consistent)
  from assms(1) r ir have "loaded_below t ((q @ [i]) @ r')" by simp
  then have "loaded_below t (q @ [i])" by (simp only: loaded_below_append)
  then have "?st' (q @ [i]) \<in> set (child_states t ?st' q)"
    by (intro child_states_mem) (auto dest: loaded_below_snoc)
  then have ne: "child_states t ?st' q \<noteq> []" by auto
  have vals: "?st' q = s \<or> ?st' q = Tristate"
    using toggle_ancestor_values[OF assms(4), of t r st s] assms(1) r by simp
  have c: "?st' q = Checked \<longleftrightarrow> (\<forall>x\<in>set (child_states t ?st' q). x = Checked)"
    using common_state_eq_iff[OF ne, of Checked] cons by simp
  have u: "?st' q = Unchecked \<longleftrightarrow> (\<forall>x\<in>set (child_states t ?st' q). x = Unchecked)"
    using common_state_eq_iff[OF ne, of Unchecked] cons by simp
  from vals assms(2) have "?st' q \<noteq> Checked \<and> ?st' q \<noteq> Unchecked \<longrightarrow> ?st' q = Tristate" by auto
  with c u show ?thesis by blast
qed

theorem toggle_recomputes_ancestors_witness:
  "loaded_below (tree expanded) [0, 4, 0] \<and> strict_prefix [0, 4] [0, 4, 0::nat] \<and>
   toggle_check (tree expanded) (state_column expanded) [0, 4, 0] Checked True [0, 4] = Tristate \<and>
   \<not> (\<forall>x\<in>set (child_states (tree expanded)
           (toggle_check (tree expanded) (state_column expanded) [0, 4, 0] Checked True) [0, 4]).
         x = Checked)"
proof -
  have h1: "loaded_below (tree expanded) [0, 4, 0]" by code_simp
  have h3: "strict_prefix [0, 4] [0, 4, 0::nat]" by simp
  have v: "toggle_check (tree expanded) (state_column expanded) [0, 4, 0] Checked True [0, 4]
             = Tristate" by code_simp
  from toggle_recomputes_ancestors[OF h1 _ h3, of Checked "state_column expanded"] h1 h3 v
  show ?thesis by simp
qed

text \<open>
  C10. The click handler maps \<open>Checked\<close> to \<open>Unchecked\<close> and both \<open>Unchecked\<close> and
  \<open>Tristate\<close> to \<open>Checked\<close>; a click on an item whose state is \<open>Tristate\<close> leaves the
  item and every descendant of it that is reached without passing a placeholder
  (\<open>loaded_below it r\<close>) in state \<open>Checked\<close>.
\<close>

theorem click_on_tristate_checks_subtree:
  assumes "state_column a item_id = Tristate" "item_id \<noteq> []"
    and "item_at (tree a) item_id = Some it" "loaded_below it r"
  shows "click_new_state Checked = Unchecked \<and> click_new_state Unchecked = Checked \<and>
         click_new_state Tristate = Checked \<and>
         state_column (on_single_click w a item_id) (item_id @ r) = Checked"
proof -
  have "state_column (on_single_click w a item_id) =
        toggle_check (tree a) (state_column a) item_id Checked True"
    using assms(1,2) by (simp add: on_single_click_def click_new_state_def Let_def)
  then show ?thesis
    using toggle_subtree[OF assms(2,3,4)] by (simp add: click_new_state_def)
qed

theorem click_on_tristate_checks_subtree_witness:
  "state_column clicked [0, 4] = Tristate \<and> state_column clicked [0, 4, 1] = Unchecked \<and>
   state_column (on_single_click sample_world clicked [0, 4]) [0, 4, 1] = Checked"
proof -
  have h1: "state_column clicked [0, 4] = Tristate" by code_simp
  have h3: "item_at (tree clicked) [0, 4] =
              Some (Item (Node [''proj'', ''sub''])
                     [Item (Node [''proj'', ''sub'', ''b.py'']) [],
                      Item (Node [''proj'', ''sub'', ''c.bin'']) []])" by code_simp
  have h4: "loaded_below (Item (Node [''proj'', ''sub''])
                     [Item (Node [''proj'', ''sub'', ''b.py'']) [],
                      Item (Node [''proj'', ''sub'', ''c.bin'']) []]) [1]" by simp
  have u: "state_column clicked [0, 4, 1] = Unchecked" by code_simp
  from click_on_tristate_checks_subtree[OF h1 _ h3 h4, of sample_world] h1 u
  show ?thesis by simp
qed

section \<open>Claims about effective selection\<close>

lemma ancestors_Nil: "ancestors [] = [[]]"
  by (simp add: ancestors_def)

lemma ancestors_step: "p \<noteq> [] \<Longrightarrow> ancestors p = p # ancestors (butlast p)"
  by (cases p rule: rev_cases) (simp_all add: ancestors_def)

lemma walk_chain_here: "source_dir a = Some p \<Longrightarrow> walk_chain a p = [p]"
  by (cases "p = []") (simp_all add: walk_chain_def ancestors_Nil ancestors_step)

lemma walk_chain_Nil: "source_dir a \<noteq> Some [] \<Longrightarrow> walk_chain a [] = [[]]"
  by (auto simp: walk_chain_def ancestors_Nil split: option.splits)

lemma walk_chain_step:
  "source_dir a \<noteq> Some p \<Longrightarrow> p \<noteq> [] \<Longrightarrow> walk_chain a p = p # walk_chain a (butlast p)"
  by (auto simp: walk_chain_def ancestors_step split: option.splits)

lemma butlast_fix: "butlast p = p \<longleftrightarrow> p = []"
  by (cases p rule: rev_cases) auto

text \<open>
  C3, as stated, fails: in the sample project, after \<^verbatim>\<open>sub/b.py\<close> was checked, the root
  and \<^verbatim>\<open>sub\<close> are \<open>Tristate\<close>, the path \<^verbatim>\<open>sub/new.txt\<close> has no node, no ancestor of it is
  \<open>Checked\<close> or \<open>Unchecked\<close>, and yet it is selected: the \<open>Tristate\<close> of the root is
  inherited.
\<close>

theorem tristate_root_is_inherited:
  "node_state clicked [''proj'', ''sub'', ''new.txt''] = None \<and>
   node_state clicked [''proj'', ''sub''] = Some Tristate \<and>
   node_state clicked [''proj''] = Some Tristate \<and>
   source_dir clicked = Some [''proj''] \<and>
   \<not> effective_selection_spec clicked [''proj'', ''sub'', ''new.txt''] \<and>
   is_path_selected clicked [''proj'', ''sub'', ''new.txt'']"
  by code_simp

text \<open>
  C3, amended. \<open>is_path_selected\<close> is decided by the nearest ancestor, the path itself
  included and the source directory the last one looked at, whose explicit state is
  \<open>Checked\<close> or \<open>Unchecked\<close>; a \<open>Tristate\<close> node is passed over. When none decides, a
  path at or below the source directory is selected exactly when the root node exists
  and its state is not \<open>Unchecked\<close> (so a \<open>Tristate\<close> or blank root selects), and a path
  that is not below the source directory is not selected.
\<close>

theorem is_path_selected_nearest_explicit:
  "is_path_selected a p = nearest_explicit_or_root a p"
proof (induction a p rule: is_path_selected.induct)
  case (1 a p)
  show ?case
  proof (cases "explicit a p")
    case True
    have "hd (walk_chain a p) = p \<and> walk_chain a p \<noteq> []"
      by (cases "p = []"; cases "source_dir a = Some p")
         (simp_all add: walk_chain_here walk_chain_Nil walk_chain_step)
    then obtain r where "walk_chain a p = p # r" by (cases "walk_chain a p") auto
    with True have "find (explicit a) (walk_chain a p) = Some p" by simp
    then have "nearest_explicit_or_root a p = (node_state a p = Some Checked)"
      by (simp add: nearest_explicit_or_root_def)
    moreover have "is_path_selected a p = (node_state a p = Some Checked)"
      using True by (subst is_path_selected.simps) (auto simp: explicit_def)
    ultimately show ?thesis by simp
  next
    case False
    then have ne: "node_state a p \<noteq> Some Checked" "node_state a p \<noteq> Some Unchecked"
      by (auto simp: explicit_def)
    show ?thesis
    proof (cases "Some p = source_dir a")
      case True
      then have sd: "source_dir a = Some p" by simp
      have "p \<in> set (ancestors p)" by (simp add: ancestors_def)
      then have "nearest_explicit_or_root a p =
            (case node_state a p of Some s \<Rightarrow> s \<noteq> Unchecked | None \<Rightarrow> False)"
        using False sd by (simp add: nearest_explicit_or_root_def walk_chain_here)
      moreover have "is_path_selected a p =
            (case node_state a p of Some s \<Rightarrow> s \<noteq> Unchecked | None \<Rightarrow> False)"
        using ne True by (subst is_path_selected.simps) simp
      ultimately show ?thesis by simp
    next
      case nsd: False
      then have nsd': "source_dir a \<noteq> Some p" by auto
      show ?thesis
      proof (cases "p = []")
        case True
        have "is_path_selected a p = False"
          using ne nsd True by (subst is_path_selected.simps) simp
        moreover have "nearest_explicit_or_root a p = False"
          using False nsd' True
          by (auto simp: nearest_explicit_or_root_def walk_chain_Nil ancestors_Nil
                   split: option.splits)
        ultimately show ?thesis by simp
      next
        case pne: False
        then have bl: "butlast p \<noteq> p" by (simp add: butlast_fix)
        have "is_path_selected a p = is_path_selected a (butlast p)"
          using ne nsd bl by (subst is_path_selected.simps) simp
        also have "\<dots> = nearest_explicit_or_root a (butlast p)"
          using "1.IH" ne nsd bl by simp
        also have "\<dots> = nearest_explicit_or_root a p"
          using False nsd' pne
          by (auto simp: nearest_explicit_or_root_def walk_chain_step ancestors_step
                   split: option.splits)
        finally show ?thesis .
      qed
    qed
  qed
qed

theorem is_path_selected_nearest_explicit_witness:
  "node_state clicked [''proj'', ''sub''] = Some Tristate \<and>
   find (explicit clicked) (walk_chain clicked [''proj'', ''sub'', ''new.txt'']) = None \<and>
   is_path_selected clicked [''proj'', ''sub'', ''new.txt''] \<and>
   \<not> is_path_selected clicked [''proj'', ''sub'', ''c.bin'']"
proof -
  have a: "node_state clicked [''proj'', ''sub''] = Some Tristate" by code_simp
  have b: "find (explicit clicked) (walk_chain clicked [''proj'', ''sub'', ''new.txt'']) = None"
    by code_simp
  have c: "nearest_explicit_or_root clicked [''proj'', ''sub'', ''new.txt'']" by code_simp
  have d: "\<not> nearest_explicit_or_root clicked [''proj'', ''sub'', ''c.bin'']" by code_simp
  from a b c d show ?thesis
    by (simp add: is_path_selected_nearest_explicit)
qed

section \<open>Claims about the saved selection\<close>

text \<open>
  C2, as stated, fails: in the sample project, after \<^verbatim>\<open>sub/b.py\<close> was checked, the
  directory \<^verbatim>\<open>sub\<close> is \<open>Tristate\<close> and its path is among the saved
  \<^verbatim>\<open>checked_paths\<close>.
\<close>

theorem tristate_saved_as_checked:
  "state_column clicked [0, 4] = Tristate \<and>
   map_of (path_to_id_map clicked) [''proj'', ''sub''] = Some [0, 4] \<and>
   resolve sample_world [''proj'', ''sub''] = [''proj'', ''sub''] \<and>
   [''proj'', ''sub''] \<in> set (saved_checked_paths sample_world clicked)"
  by code_simp

text \<open>
  C2, amended. A path is among the saved \<^verbatim>\<open>checked_paths\<close> if and only if it is the
  resolved path of an entry of \<open>path_to_id_map\<close> whose item exists and whose state is
  not \<open>Unchecked\<close>: \<open>Checked\<close>, \<open>Tristate\<close> and blank nodes alike.
\<close>

theorem saved_paths_are_not_unchecked:
  assumes "source_dir a = Some sd"
  shows "q \<in> set (saved_checked_paths w a) \<longleftrightarrow>
         (\<exists>p iid. (p, iid) \<in> set (path_to_id_map a) \<and> tree_exists (tree a) iid \<and>
                   state_column a iid \<noteq> Unchecked \<and> q = resolve w p)"
  using assms
  by (auto simp: saved_checked_paths_def save_settings_for_current_project_def Let_def
        get_project_settings_def save_project_settings_def image_iff)

theorem saved_paths_are_not_unchecked_witness:
  "source_dir clicked_linked = Some [''proj''] \<and>
   state_column clicked_linked [0, 4] = Tristate \<and>
   [''proj'', ''real''] \<in> set (saved_checked_paths linked_world clicked_linked) \<and>
   [''proj'', ''real'', ''b.py''] \<in> set (saved_checked_paths linked_world clicked_linked) \<and>
   [''proj'', ''real'', ''c.bin''] \<notin> set (saved_checked_paths linked_world clicked_linked) \<and>
   [''proj'', ''sub'', ''b.py''] \<notin> set (saved_checked_paths linked_world clicked_linked)"
proof -
  have sd: "source_dir clicked_linked = Some [''proj'']" by code_simp
  have m: "path_to_id_map clicked_linked =
     [([''proj''], [0]), ([''proj'', ''a.txt''], [0, 0]), ([''proj'', ''big.txt''], [0, 1]),
      ([''proj'', ''gone.txt''], [0, 2]), ([''proj'', ''node_modules''], [0, 3]),
      ([''proj'', ''sub''], [0, 4]), ([''proj'', ''sub'', ''b.py''], [0, 4, 0]),
      ([''proj'', ''sub'', ''c.bin''], [0, 4, 1])]" by code_simp
  have st: "map (state_column clicked_linked)
              [[0], [0, 0], [0, 1], [0, 2], [0, 3], [0, 4], [0, 4, 0], [0, 4, 1]] =
            [Tristate, Unchecked, Unchecked, Unchecked, Unchecked, Tristate, Checked, Unchecked]"
    by code_simp
  have ex: "tree_exists (tree clicked_linked) [0, 4] \<and> tree_exists (tree clicked_linked) [0, 4, 0]"
    by code_simp
  have r: "resolve linked_world =
     (\<lambda>p. if take 2 p = [''proj'', ''sub''] then [''proj'', ''real''] @ drop 2 p else p)"
    by (simp add: linked_world_def sample_world_def)
  have "[''proj'', ''real''] \<in> set (saved_checked_paths linked_world clicked_linked)"
    unfolding saved_paths_are_not_unchecked[OF sd]
    using st ex by (intro exI[of _ "[''proj'', ''sub'']"] exI[of _ "[0, 4]"]) (simp add: m r)
  moreover have "[''proj'', ''real'', ''b.py''] \<in> set (saved_checked_paths linked_world clicked_linked)"
    unfolding saved_paths_are_not_unchecked[OF sd]
    using st ex by (intro exI[of _ "[''proj'', ''sub'', ''b.py'']"] exI[of _ "[0, 4, 0]"]) (simp add: m r)
  moreover have "[''proj'', ''real'', ''c.bin''] \<notin> set (saved_checked_paths linked_world clicked_linked)"
    unfolding saved_paths_are_not_unchecked[OF sd] m using st by (auto simp: r)
  moreover have "[''proj'', ''sub'', ''b.py''] \<notin> set (saved_checked_paths linked_world clicked_linked)"
    unfolding saved_paths_are_not_unchecked[OF sd] m using st by (auto simp: r)
  ultimately show ?thesis using sd st by simp
qed

text \<open>
  C5, as stated, fails: \<^verbatim>\<open>sub/c.bin\<close> is not selected before the settings are saved and
  the tree is rebuilt from them, and is selected afterwards.
\<close>

theorem reload_changes_selection:
  "\<not> is_path_selected clicked [''proj'', ''sub'', ''c.bin''] \<and>
   is_path_selected (refresh_tree_view sample_world clicked) [''proj'', ''sub'', ''c.bin'']"
  by code_simp

section \<open>Properties of the listing and of the collected files\<close>

lemma ignored_dir_segment:
  assumes "d \<in> set (ignored_dirs_list a)" "lower d \<in> set (map lower f)"
  shows "is_path_ignored a f"
proof -
  from assms(2) have "lower d \<in> set (parts (map lower f))" by (simp add: parts_def)
  moreover from assms(1) have "lower d \<in> set (map lower (ignored_dirs_list a))" by simp
  ultimately have "\<exists>part\<in>set (parts (map lower f)). part \<in> set (map lower (ignored_dirs_list a))"
    by blast
  then show ?thesis by (simp add: is_path_ignored_def Let_def)
qed

lemma recurse_tree_not_ignored:
  "(f, line) \<in> set (recurse_tree a False p n pre) \<Longrightarrow>
   \<not> is_path_ignored a f \<and> is_path_selected a f"
proof (induction a "False" p n pre arbitrary: f line rule: recurse_tree.induct)
  case (1 a p es pre)
  let ?entries = "sort_key fst es"
  from "1.prems" obtain i where i: "i < length ?entries"
    and mem: "(f, line) \<in> set (
           let name = fst (?entries ! i); n = snd (?entries ! i);
               is_last = (i = length ?entries - 1);
               connector = (if is_last then last_connector else mid_connector);
               child_path = p @ [name]
           in if \<not> False \<and> (is_path_ignored a child_path \<or> \<not> is_path_selected a child_path)
              then []
              else (child_path, pre @ connector @ name) #
                   (if is_dir_node n
                    then recurse_tree a False child_path n
                           (pre @ (if is_last then ''    '' else bar_prefix))
                    else []))"
    by (auto simp: Let_def)
  let ?child = "p @ [fst (?entries ! i)]"
  show ?case
  proof (cases "is_path_ignored a ?child \<or> \<not> is_path_selected a ?child")
    case True
    with mem show ?thesis by (simp add: Let_def)
  next
    case False
    show ?thesis
    proof (cases "f = ?child")
      case True
      with False show ?thesis by simp
    next
      case ne: False
      with mem False have dir: "is_dir_node (snd (?entries ! i))"
        and rec: "(f, line) \<in> set (recurse_tree a False ?child (snd (?entries ! i))
                     (pre @ (if i = length ?entries - 1 then ''    '' else bar_prefix)))"
        by (auto simp: Let_def split: if_splits)
      have "i \<in> set [0..<length ?entries]" using i by simp
      from "1.hyps"[OF refl this refl refl refl refl refl _ dir rec] False
      show ?thesis by simp
    qed
  qed
qed simp_all

lemma walk_files_kept:
  "f \<in> set (walk_files a p n) \<Longrightarrow> \<not> is_path_ignored a f \<and> is_path_selected a f"
proof (induction a p n arbitrary: f rule: walk_files.induct)
  case (1 a dirpath es)
  let ?dirs = "filter (\<lambda>e. is_dir_node (snd e) \<and> \<not> is_path_ignored a (dirpath @ [fst e])) es"
  from "1.prems" consider
      (here) "\<not> is_path_ignored a f \<and> is_path_selected a f"
    | (below) e where "e \<in> set ?dirs" "f \<in> set (walk_files a (dirpath @ [fst e]) (snd e))"
    by (auto simp: Let_def)
  then show ?case
  proof cases
    case here
    then show ?thesis .
  next
    case (below e)
    from "1.IH"[OF refl refl below(1) below(2)] show ?thesis .
  qed
qed simp_all

lemma files_written_subset: "set (files_written w a) \<subseteq> set (files_to_process w a)"
  by (auto simp: files_written_def split: option.splits)

section \<open>Claims about the dump\<close>














text \<open>
  C8. For a name \<open>d\<close> of the list of ignored directories and a path \<open>f\<close> one of whose
  segments equals \<open>d\<close> up to the case of the letters: \<open>f\<close> has no line in the listing of
  the selected files, is not collected and is not written to the output, whatever the
  states of the tree are.
\<close>

theorem ignored_dirs_excluded:
  assumes "d \<in> set (ignored_dirs_list a)" "lower d \<in> set (map lower f)"
  shows "f \<notin> fst ` set (listed_entries w a False) \<and>
         f \<notin> set (files_to_process w a) \<and> f \<notin> set (files_written w a)"
proof -
  have ign: "is_path_ignored a f" using assms by (rule ignored_dir_segment)
  have "f \<notin> fst ` set (listed_entries w a False)"
  proof
    assume "f \<in> fst ` set (listed_entries w a False)"
    then obtain line where "(f, line) \<in> set (listed_entries w a False)" by auto
    then obtain sd n where "(f, line) \<in> set (recurse_tree a False sd n [])"
      by (auto simp: listed_entries_def split: option.splits)
    from recurse_tree_not_ignored[OF this] ign show False by simp
  qed
  moreover have np: "f \<notin> set (files_to_process w a)"
  proof
    assume "f \<in> set (files_to_process w a)"
    then obtain sd n where "f \<in> set (walk_files a sd n)"
      by (auto simp: files_to_process_def split: option.splits)
    from walk_files_kept[OF this] ign show False by simp
  qed
  moreover have "f \<notin> set (files_written w a)" using np files_written_subset by blast
  ultimately show ?thesis by simp
qed

text \<open>
  The file \<^verbatim>\<open>node_modules/x.js\<close> of the sample project, whose directory is checked, with
  \<^verbatim>\<open>Node_Modules\<close> in the list of ignored directories.
\<close>

theorem ignored_dirs_excluded_witness:
  "''Node_Modules'' \<in> set (ignored_dirs_list shouting) \<and>
   lower ''Node_Modules'' \<in> set (map lower [''proj'', ''node_modules'', ''x.js'']) \<and>
   is_path_selected shouting [''proj'', ''node_modules'', ''x.js''] \<and>
   [''proj'', ''node_modules'', ''x.js''] \<notin> fst ` set (listed_entries sample_world shouting False) \<and>
   [''proj'', ''node_modules'', ''x.js''] \<notin> set (files_to_process sample_world shouting) \<and>
   [''proj'', ''node_modules'', ''x.js''] \<notin> set (files_written sample_world shouting)"
proof -
  have d: "''Node_Modules'' \<in> set (ignored_dirs_list shouting)"
    by (simp add: shouting_def)
  have seg: "lower ''Node_Modules'' \<in> set (map lower [''proj'', ''node_modules'', ''x.js''])"
    by code_simp
  have sel: "is_path_selected shouting [''proj'', ''node_modules'', ''x.js'']"
    by code_simp
  from ignored_dirs_excluded[OF d seg, of sample_world] d seg sel show ?thesis by blast
qed







section \<open>Properties of the shape of the tree\<close>

lemma item_at_modify_below:
  "item_at (modify_at p f t) (p @ r) =
     (case item_at t p of None \<Rightarrow> None | Some it \<Rightarrow> item_at (f it) r)"
proof (induction p arbitrary: t)
  case Nil
  then show ?case by simp
next
  case (Cons i p)
  then show ?case by (cases t) simp
qed

lemma item_at_modify_other:
  "\<not> prefix p c \<Longrightarrow> \<not> prefix c p \<Longrightarrow> item_at (modify_at p f t) c = item_at t c"
proof (induction p arbitrary: t c)
  case Nil
  then show ?case by simp
next
  case (Cons i p)
  from Cons.prems obtain j c' where c: "c = j # c'" by (cases c) auto
  show ?case
  proof (cases "j = i")
    case True
    with Cons.prems c have "\<not> prefix p c'" "\<not> prefix c' p" by auto
    from Cons.IH[OF this] c True show ?thesis by (cases t) simp
  next
    case False
    with c show ?thesis by (cases t) simp
  qed
qed

lemma kind_at_modify_above:
  "strict_prefix c p \<Longrightarrow> kind_at (modify_at p f t) c = kind_at t c"
proof (induction p arbitrary: t c)
  case Nil
  then show ?case by simp
next
  case (Cons i p)
  show ?case
  proof (cases c)
    case Nil
    then show ?thesis by (cases t) (simp add: kind_at_def)
  next
    case (Cons j c')
    with Cons.prems have j: "j = i" and sp: "strict_prefix c' p" by auto
    from Cons.IH[OF sp] Cons j show ?thesis by (cases t) (simp add: kind_at_def)
  qed
qed

lemma kind_at_snoc:
  "kind_at t (a @ [i]) =
     (if i < length (get_children t a) then Some (kind_of (get_children t a ! i)) else None)"
  by (auto simp: kind_at_def get_children_def item_at_append split: option.splits)

lemma kind_at_Nil [simp]: "kind_at t [] = Some (kind_of t)"
  by (simp add: kind_at_def)

lemma kind_at_none_below: "kind_at t a = None \<Longrightarrow> kind_at t (a @ r) = None"
  by (simp add: kind_at_def item_at_append)

lemma kind_at_leaf: "kind_at (Item k []) r = (if r = [] then Some k else None)"
  by (cases r) (simp_all add: kind_at_def)

lemma kind_at_with_placeholder:
  "kind_at (Item k [Item Loading []]) r =
     (if r = [] then Some k else if r = [0] then Some Loading else None)"
proof (cases r)
  case Nil
  then show ?thesis by simp
next
  case (Cons i r')
  then show ?thesis by (cases r') (auto simp: kind_at_def)
qed

text \<open>Appending a child to an existing item adds the kinds of the new item, and nothing else.\<close>

lemma kind_at_tree_insert:
  assumes "item_at t p = Some it"
  shows "kind_at (tree_insert t p new) c =
     (if prefix (p @ [length (children it)]) c
      then kind_at new (drop (Suc (length p)) c)
      else kind_at t c)"
proof -
  let ?f = "\<lambda>it. Item (kind_of it) (children it @ [new])"
  let ?n = "length (children it)"
  consider (below) r where "c = p @ r" | (above) "strict_prefix c p"
    | (other) "\<not> prefix p c" "\<not> prefix c p"
    by (auto simp: prefix_def strict_prefix_def)
  then show ?thesis
  proof cases
    case (below r)
    have e: "item_at (tree_insert t p new) c = item_at (?f it) r"
      using assms below by (simp add: tree_insert_def item_at_modify_below)
    show ?thesis
    proof (cases r)
      case Nil
      with e below assms show ?thesis by (simp add: kind_at_def)
    next
      case (Cons j r')
      show ?thesis
      proof (cases "j = ?n")
        case True
        with e Cons below show ?thesis by (simp add: kind_at_def)
      next
        case False
        have "item_at (?f it) (j # r') = item_at it (j # r')"
          using False by (auto simp: nth_append)
        also have "\<dots> = item_at t (p @ j # r')" using assms by (simp add: item_at_append)
        finally show ?thesis using e Cons below False by (simp add: kind_at_def)
      qed
    qed
  next
    case above
    then have "\<not> prefix (p @ [?n]) c" by (auto simp: strict_prefix_def prefix_def)
    with above show ?thesis by (simp add: tree_insert_def kind_at_modify_above)
  next
    case other
    then have "\<not> prefix (p @ [?n]) c" by (auto simp: prefix_def)
    with other show ?thesis by (simp add: tree_insert_def kind_at_def item_at_modify_other)
  qed
qed

lemma kind_at_tree_insert_missing:
  "item_at t p = None \<Longrightarrow> tree_insert t p new = t"
proof (induction p arbitrary: t)
  case Nil
  then show ?case by simp
next
  case (Cons i p)
  show ?case
  proof (cases "i < length (children t)")
    case True
    with Cons.prems have "item_at (children t ! i) p = None" by simp
    from Cons.IH[OF this] True show ?thesis
      by (cases t) (simp add: tree_insert_def)
  next
    case False
    then show ?thesis by (simp add: tree_insert_def)
  qed
qed

lemma kind_at_beyond:
  "item_at t p = Some it \<Longrightarrow> kind_at t (p @ length (children it) # r) = None"
  by (simp add: kind_at_def item_at_append)

lemma drop_Suc_append: "drop (Suc (length p)) (p @ n # r) = r"
  by simp

lemma kind_at_insert_leaf:
  assumes "item_at t p = Some it"
  shows "kind_at (tree_insert t p (Item k [])) = (kind_at t)(p @ [length (children it)] \<mapsto> k)"
proof
  fix c
  let ?n = "length (children it)"
  show "kind_at (tree_insert t p (Item k [])) c = ((kind_at t)(p @ [?n] \<mapsto> k)) c"
  proof (cases "prefix (p @ [?n]) c")
    case True
    then obtain r where c: "c = p @ ?n # r" by (auto simp: prefix_def)
    have "kind_at t c = None" unfolding c using assms by (rule kind_at_beyond)
    with True c show ?thesis
      by (simp add: kind_at_tree_insert[OF assms] kind_at_leaf)
  next
    case False
    then have "c \<noteq> p @ [?n]" by auto
    with False show ?thesis by (simp add: kind_at_tree_insert[OF assms])
  qed
qed

lemma kind_at_insert_placeholder:
  assumes "item_at t p = Some it"
  shows "kind_at (tree_insert t p (Item k [Item Loading []])) =
         (kind_at t)(p @ [length (children it)] \<mapsto> k,
                     (p @ [length (children it)]) @ [0] \<mapsto> Loading)"
proof
  fix c
  let ?n = "length (children it)"
  show "kind_at (tree_insert t p (Item k [Item Loading []])) c =
        ((kind_at t)(p @ [?n] \<mapsto> k, (p @ [?n]) @ [0] \<mapsto> Loading)) c"
  proof (cases "prefix (p @ [?n]) c")
    case True
    then obtain r where c: "c = p @ ?n # r" by (auto simp: prefix_def)
    have "kind_at t c = None" unfolding c using assms by (rule kind_at_beyond)
    with True c show ?thesis
      by (simp add: kind_at_tree_insert[OF assms] kind_at_with_placeholder)
  next
    case False
    then have "c \<noteq> p @ [?n]" "c \<noteq> (p @ [?n]) @ [0]" by (auto simp: prefix_def)
    with False show ?thesis by (simp add: kind_at_tree_insert[OF assms])
  qed
qed

lemma kind_at_delete_placeholder:
  assumes "item_at t p = Some it" "children it = [Item Loading []]"
  shows "kind_at (tree_delete_first t p) = (kind_at t)(p @ [0] := None)"
proof
  fix c
  let ?f = "\<lambda>it. Item (kind_of it) (tl (children it))"
  consider (below) r where "c = p @ r" | (above) "strict_prefix c p"
    | (other) "\<not> prefix p c" "\<not> prefix c p"
    by (auto simp: prefix_def strict_prefix_def)
  then show "kind_at (tree_delete_first t p) c = ((kind_at t)(p @ [0] := None)) c"
  proof cases
    case (below r)
    have e: "item_at (tree_delete_first t p) c = item_at (Item (kind_of it) []) r"
      using assms below by (simp add: tree_delete_first_def item_at_modify_below)
    show ?thesis
    proof (cases r)
      case Nil
      with e below assms show ?thesis by (simp add: kind_at_def)
    next
      case (Cons j r')
      have "kind_at t (p @ j # r') = (if j = 0 \<and> r' = [] then Some Loading else None)"
        using assms by (cases r') (auto simp: kind_at_def item_at_append)
      with e Cons below show ?thesis by (simp add: kind_at_def)
    qed
  next
    case above
    then have "c \<noteq> p @ [0]" by (auto simp: strict_prefix_def prefix_def)
    with above show ?thesis by (simp add: tree_delete_first_def kind_at_modify_above)
  next
    case other
    then have "c \<noteq> p @ [0]" by (auto simp: prefix_def)
    with other show ?thesis by (simp add: tree_delete_first_def kind_at_def item_at_modify_other)
  qed
qed

lemma kind_at_contiguous:
  "kind_at t (c @ [i]) \<noteq> None \<Longrightarrow> j \<le> i \<Longrightarrow> kind_at t (c @ [j]) \<noteq> None"
  by (simp add: kind_at_snoc split: if_splits)

lemma kind_at_exists_iff: "kind_at t c \<noteq> None \<longleftrightarrow> tree_exists t c"
  by (simp add: kind_at_def tree_exists_def)

lemma add_node_shape:
  assumes inv: "shape w a"
    and par: "kind_at (tree a) p = Some (Node pp)"
    and dir: "isdir (fs w) pp"
    and nl: "\<forall>i. kind_at (tree a) (p @ [i]) \<noteq> Some Loading"
  shows "shape w (fst (add_node_to_tree w a p path False checked))"
    and "kind_at (tree (fst (add_node_to_tree w a p path False checked))) p = Some (Node pp)"
    and "\<forall>i. kind_at (tree (fst (add_node_to_tree w a p path False checked))) (p @ [i]) \<noteq> Some Loading"
proof -
  from par obtain it where it: "item_at (tree a) p = Some it" by (auto simp: kind_at_def)
  let ?n = "length (children it)"
  let ?new = "p @ [?n]"
  let ?a' = "fst (add_node_to_tree w a p path False checked)"
  let ?K = "kind_at (tree a)"
  have gc: "get_children (tree a) p = children it" using it by (simp add: get_children_def)
  from inv have top: "kind_of (tree a) = Top" by (simp add: shape_def)
  with par have pne: "p \<noteq> []" by auto
  have freshr: "?K (p @ ?n # r) = None" for r using it by (rule kind_at_beyond)
  have fresh: "?K ?new = None" "?K (?new @ [0]) = None"
    using freshr[of "[]"] freshr[of "[0]"] by simp_all
  obtain ph s where s: "s = Checked \<or> s = Unchecked"
    and K': "kind_at (tree ?a') = (if ph then ?K(?new \<mapsto> Node path, ?new @ [0] \<mapsto> Loading)
                                   else ?K(?new \<mapsto> Node path))"
    and st': "state_column ?a' = (if ph then (state_column a)(?new := s, ?new @ [0] := Blank)
                                   else (state_column a)(?new := s))"
    and sd': "source_dir ?a' = source_dir a"
    and kt: "kind_of (tree ?a') = Top"
    and phd: "ph \<longrightarrow> isdir (fs w) path"
  proof -
    let ?ph = "isdir (fs w) path \<and> (case listdir (fs w) path of Some (x # xs) \<Rightarrow> True | _ \<Rightarrow> False)"
    let ?s = "if resolve w path \<in> set checked then Checked else Unchecked"
    have 1: "?s = Checked \<or> ?s = Unchecked" by simp
    have 2: "kind_at (tree ?a') = (if ?ph then ?K(?new \<mapsto> Node path, ?new @ [0] \<mapsto> Loading)
                                   else ?K(?new \<mapsto> Node path))"
      using kind_at_insert_leaf[OF it, of "Node path"]
            kind_at_insert_placeholder[OF it, of "Node path"]
      by (simp add: add_node_to_tree_def Let_def gc)
    have 3: "state_column ?a' = (if ?ph then (state_column a)(?new := ?s, ?new @ [0] := Blank)
                                   else (state_column a)(?new := ?s))"
      by (simp add: add_node_to_tree_def Let_def gc)
    have 4: "source_dir ?a' = source_dir a" by (simp add: add_node_to_tree_def Let_def)
    have "kind_at (tree ?a') [] = ?K []" unfolding 2 using pne by simp
    then have 5: "kind_of (tree ?a') = Top" using top by simp
    have 6: "?ph \<longrightarrow> isdir (fs w) path" by simp
    from 1 2 3 4 5 6 show ?thesis by (rule that)
  qed
  show "kind_at (tree ?a') p = Some (Node pp)" using par K' by simp
  show "\<forall>i. kind_at (tree ?a') (p @ [i]) \<noteq> Some Loading" using nl K' by simp
  show "shape w ?a'"
    unfolding shape_def
  proof (intro conjI allI impI)
    show "kind_of (tree ?a') = Top" by (rule kt)
  next
    from inv obtain sd where "source_dir a = Some sd" "isdir (fs w) sd" "?K [0] = Some (Node sd)"
      by (auto simp: shape_def)
    moreover have "kind_at (tree ?a') [0] = ?K [0]"
      unfolding K' using fresh pne by (cases p) auto
    ultimately show "\<exists>sd. source_dir ?a' = Some sd \<and> isdir (fs w) sd \<and>
        kind_at (tree ?a') [0] = Some (Node sd)" using sd' by simp
  next
    fix c i
    assume L: "kind_at (tree ?a') (c @ [i]) = Some Loading"
    show "i = 0"
    proof (cases "c = ?new")
      case True
      with L K' freshr[of "[i]"] show ?thesis by (auto split: if_splits)
    next
      case False
      with L K' have "?K (c @ [i]) = Some Loading" by (auto split: if_splits)
      with inv show ?thesis unfolding shape_def by blast
    qed
  next
    fix c i
    assume L: "kind_at (tree ?a') (c @ [i]) = Some Loading"
    show "\<exists>q. kind_at (tree ?a') c = Some (Node q)"
    proof (cases "c = ?new")
      case True
      with K' show ?thesis by simp
    next
      case False
      with L K' have "?K (c @ [i]) = Some Loading" by (auto split: if_splits)
      with inv obtain q where "?K c = Some (Node q)" unfolding shape_def by blast
      with K' False fresh show ?thesis by auto
    qed
  next
    fix c i
    assume L: "kind_at (tree ?a') (c @ [i]) = Some Loading"
    show "kind_at (tree ?a') (c @ [1]) = None"
    proof (cases "c = ?new")
      case True
      have "?K (?new @ [1]) = None" using fresh(1) by (rule kind_at_none_below)
      with True K' show ?thesis by simp
    next
      case False
      with L K' have old: "?K (c @ [i]) = Some Loading" by (auto split: if_splits)
      with inv have "?K (c @ [1]) = None" unfolding shape_def by blast
      moreover from old nl have "c \<noteq> p" by auto
      ultimately show ?thesis using K' False by auto
    qed
  next
    fix c i
    assume L: "kind_at (tree ?a') (c @ [i]) = Some Loading"
    show "kind_at (tree ?a') ((c @ [0]) @ [0]) = None"
    proof (cases "c = ?new")
      case True
      have "?K (?new @ [0, 0]) = None" using fresh(1) by (rule kind_at_none_below)
      with True K' show ?thesis by simp
    next
      case False
      with L K' have old: "?K (c @ [i]) = Some Loading" by (auto split: if_splits)
      with inv have "?K ((c @ [0]) @ [0]) = None" and "i = 0" unfolding shape_def by blast+
      moreover from old nl have "c \<noteq> p" by auto
      moreover from old \<open>i = 0\<close> par have "c @ [0] \<noteq> p" by auto
      ultimately show ?thesis using K' False by auto
    qed
  next
    fix c i q
    assume N: "kind_at (tree ?a') c = Some (Node q)" and ch: "kind_at (tree ?a') (c @ [i]) \<noteq> None"
    show "isdir (fs w) q"
    proof (cases "c = ?new")
      case True
      with ch K' freshr[of "[i]"] have ph by (auto split: if_splits)
      with phd N K' True show ?thesis by (auto split: if_splits)
    next
      case False
      show ?thesis
      proof (cases "c = p")
        case True
        with N par K' fresh dir show ?thesis by (auto split: if_splits)
      next
        case cp: False
        with N ch K' False have "?K c = Some (Node q)" "?K (c @ [i]) \<noteq> None"
          by (auto split: if_splits)
        with inv show ?thesis unfolding shape_def by blast
      qed
    qed
  next
    fix c q
    assume N: "kind_at (tree ?a') c = Some (Node q)"
      and leafy: "\<forall>i. kind_at (tree ?a') (c @ [i]) = None \<or> kind_at (tree ?a') (c @ [i]) = Some Loading"
    show "state_column ?a' c = Checked \<or> state_column ?a' c = Unchecked"
    proof (cases "c = ?new")
      case True
      with st' s show ?thesis by auto
    next
      case False
      from leafy[rule_format, of ?n] K' have cp: "c \<noteq> p" by (auto split: if_splits)
      from N K' False freshr[of "[0]"] have n0: "c \<noteq> ?new @ [0]" by (auto split: if_splits)
      from N K' False n0 have "?K c = Some (Node q)" by (auto split: if_splits)
      moreover have "\<forall>i. ?K (c @ [i]) = None \<or> ?K (c @ [i]) = Some Loading"
        using leafy K' False cp by (auto split: if_splits)
      ultimately have "state_column a c = Checked \<or> state_column a c = Unchecked"
        using inv unfolding shape_def by blast
      with st' False n0 show ?thesis by auto
    qed
  qed
qed

lemma add_node_fields:
  "source_dir (fst (add_node_to_tree w a p path r checked)) = source_dir a"
  "config_manager (fst (add_node_to_tree w a p path r checked)) = config_manager a"
  by (simp_all add: add_node_to_tree_def Let_def)

lemma fold_add_node_shape:
  assumes "shape w a" "kind_at (tree a) p = Some (Node pp)" "isdir (fs w) pp"
    "\<forall>i. kind_at (tree a) (p @ [i]) \<noteq> Some Loading"
  shows "shape w (fold (\<lambda>nm a'. fst (add_node_to_tree w a' p (pp @ [nm]) False checked)) ns a) \<and>
         kind_at (tree (fold (\<lambda>nm a'. fst (add_node_to_tree w a' p (pp @ [nm]) False checked)) ns a)) p
           = Some (Node pp) \<and>
         (\<forall>i. kind_at (tree (fold (\<lambda>nm a'. fst (add_node_to_tree w a' p (pp @ [nm]) False checked)) ns a))
                 (p @ [i]) \<noteq> Some Loading)"
  using assms
proof (induction ns arbitrary: a)
  case Nil
  then show ?case by simp
next
  case (Cons nm ns)
  let ?a1 = "fst (add_node_to_tree w a p (pp @ [nm]) False checked)"
  from add_node_shape[OF Cons.prems(1,2,3,4), of "pp @ [nm]" checked]
  have "shape w ?a1" "kind_at (tree ?a1) p = Some (Node pp)"
    "\<forall>i. kind_at (tree ?a1) (p @ [i]) \<noteq> Some Loading" by blast+
  from Cons.IH[OF this(1,2) Cons.prems(3) this(3)] show ?case by simp
qed

lemma add_listing_shape:
  assumes "shape w a" "kind_at (tree a) p = Some (Node pp)" "isdir (fs w) pp"
    "\<forall>i. kind_at (tree a) (p @ [i]) \<noteq> Some Loading"
  shows "shape w (add_listing w a p pp names checked)"
    and "kind_at (tree (add_listing w a p pp names checked)) p = Some (Node pp)"
    and "\<forall>i. kind_at (tree (add_listing w a p pp names checked)) (p @ [i]) \<noteq> Some Loading"
  using fold_add_node_shape[OF assms, of checked "sort names"]
  by (simp_all add: add_listing_def)

lemma add_message_shape:
  assumes inv: "shape w a"
    and par: "kind_at (tree a) p = Some (Node pp)"
    and dir: "isdir (fs w) pp"
    and nl: "\<forall>i. kind_at (tree a) (p @ [i]) \<noteq> Some Loading"
  shows "shape w (add_message a p)"
proof -
  from par obtain it where it: "item_at (tree a) p = Some it" by (auto simp: kind_at_def)
  let ?n = "length (children it)"
  let ?new = "p @ [?n]"
  let ?a' = "add_message a p"
  let ?K = "kind_at (tree a)"
  have gc: "get_children (tree a) p = children it" using it by (simp add: get_children_def)
  from inv have top: "kind_of (tree a) = Top" by (simp add: shape_def)
  with par have pne: "p \<noteq> []" by auto
  have freshr: "?K (p @ ?n # r) = None" for r using it by (rule kind_at_beyond)
  have K': "kind_at (tree ?a') = ?K(?new \<mapsto> Message)"
    using kind_at_insert_leaf[OF it, of Message] by (simp add: add_message_def)
  have st': "state_column ?a' = (state_column a)(?new := Blank)"
    by (simp add: add_message_def gc)
  have sd': "source_dir ?a' = source_dir a" by (simp add: add_message_def)
  have "kind_at (tree ?a') [] = ?K []" unfolding K' using pne by simp
  then have kt: "kind_of (tree ?a') = Top" using top by simp
  show ?thesis
    unfolding shape_def
  proof (intro conjI allI impI)
    show "kind_of (tree ?a') = Top" by (rule kt)
  next
    from inv obtain sd where "source_dir a = Some sd" "isdir (fs w) sd" "?K [0] = Some (Node sd)"
      by (auto simp: shape_def)
    moreover have "kind_at (tree ?a') [0] = ?K [0]"
      unfolding K' using freshr[of "[]"] pne by (cases p) auto
    ultimately show "\<exists>sd. source_dir ?a' = Some sd \<and> isdir (fs w) sd \<and>
        kind_at (tree ?a') [0] = Some (Node sd)" using sd' by simp
  next
    fix c i
    assume L: "kind_at (tree ?a') (c @ [i]) = Some Loading"
    then have old: "?K (c @ [i]) = Some Loading" unfolding K' by (auto split: if_splits)
    from old nl have cp: "c \<noteq> p" by auto
    from old freshr[of "[i]"] have cn: "c \<noteq> ?new" by auto
    from old inv have i0: "i = 0" unfolding shape_def by blast
    with old par have c0: "c @ [0] \<noteq> p" by auto
    show "i = 0" by (rule i0)
    from old inv obtain q where "?K c = Some (Node q)" unfolding shape_def by blast
    with K' cn show "\<exists>q. kind_at (tree ?a') c = Some (Node q)" by auto
    from old inv have "?K (c @ [1]) = None" unfolding shape_def by blast
    with K' cp show "kind_at (tree ?a') (c @ [1]) = None" by auto
    from old inv have "?K ((c @ [0]) @ [0]) = None" unfolding shape_def by blast
    with K' c0 show "kind_at (tree ?a') ((c @ [0]) @ [0]) = None" by auto
  next
    fix c i q
    assume N: "kind_at (tree ?a') c = Some (Node q)" and ch: "kind_at (tree ?a') (c @ [i]) \<noteq> None"
    from N K' have cn: "c \<noteq> ?new" by auto
    show "isdir (fs w) q"
    proof (cases "c = p")
      case True
      with N par K' cn dir show ?thesis by auto
    next
      case False
      with N ch K' cn have "?K c = Some (Node q)" "?K (c @ [i]) \<noteq> None"
        by (auto split: if_splits)
      with inv show ?thesis unfolding shape_def by blast
    qed
  next
    fix c q
    assume N: "kind_at (tree ?a') c = Some (Node q)"
      and leafy: "\<forall>i. kind_at (tree ?a') (c @ [i]) = None \<or> kind_at (tree ?a') (c @ [i]) = Some Loading"
    from N K' have cn: "c \<noteq> ?new" by auto
    from leafy[rule_format, of ?n] K' have cp: "c \<noteq> p" by (auto split: if_splits)
    from N K' cn have "?K c = Some (Node q)" by auto
    moreover have "\<forall>i. ?K (c @ [i]) = None \<or> ?K (c @ [i]) = Some Loading"
      using leafy K' cp by (auto split: if_splits)
    ultimately have "state_column a c = Checked \<or> state_column a c = Unchecked"
      using inv unfolding shape_def by blast
    with st' cn show "state_column ?a' c = Checked \<or> state_column ?a' c = Unchecked" by auto
  qed
qed

text \<open>States of ancestors of a row that is not the placeholder may change freely.\<close>

lemma on_path_not_loading:
  assumes inv: "shape w a"
    and k: "kind_at (tree a) (c @ i # r) = Some k" "r \<noteq> [] \<or> k \<noteq> Loading"
  shows "kind_at (tree a) (c @ [i]) \<noteq> None \<and> kind_at (tree a) (c @ [i]) \<noteq> Some Loading"
proof (cases r)
  case Nil
  with k show ?thesis by auto
next
  case (Cons j r')
  have ex: "kind_at (tree a) ((c @ [i]) @ [j]) \<noteq> None"
    using k(1) Cons kind_at_none_below[of "tree a" "c @ [i, j]" r'] by auto
  then have e0: "kind_at (tree a) ((c @ [i]) @ [0]) \<noteq> None"
    by (rule kind_at_contiguous) simp
  have e1: "kind_at (tree a) (c @ [i]) \<noteq> None"
  proof
    assume "kind_at (tree a) (c @ [i]) = None"
    from kind_at_none_below[OF this, of "[j]"] ex show False by simp
  qed
  have "kind_at (tree a) (c @ [i]) \<noteq> Some Loading"
  proof
    assume L: "kind_at (tree a) (c @ [i]) = Some Loading"
    with inv have "i = 0" "kind_at (tree a) ((c @ [0]) @ [0]) = None"
      unfolding shape_def by blast+
    with e0 show False by simp
  qed
  with e1 show ?thesis by simp
qed

lemma shape_states:
  assumes inv: "shape w a"
    and same: "\<And>c q. kind_at (tree a) c = Some (Node q) \<Longrightarrow>
        (\<forall>i. kind_at (tree a) (c @ [i]) = None \<or> kind_at (tree a) (c @ [i]) = Some Loading) \<Longrightarrow>
        st c = Checked \<or> st c = Unchecked"
  shows "shape w (a\<lparr>state_column := st\<rparr>)"
  using inv same unfolding shape_def by simp

lemma ups_shape:
  assumes inv: "shape w a"
    and it: "kind_at (tree a) item \<noteq> None" "kind_at (tree a) item \<noteq> Some Loading"
  shows "shape w (a\<lparr>state_column := update_parent_state (tree a) (state_column a) item\<rparr>)"
proof (rule shape_states[OF inv])
  fix c q
  assume N: "kind_at (tree a) c = Some (Node q)"
    and leafy: "\<forall>i. kind_at (tree a) (c @ [i]) = None \<or> kind_at (tree a) (c @ [i]) = Some Loading"
  have "\<not> strict_prefix c item"
  proof
    assume "strict_prefix c item"
    then obtain i r where e: "item = c @ i # r" by (rule strict_prefixE')
    from it obtain k where "kind_at (tree a) (c @ i # r) = Some k" "k \<noteq> Loading"
      unfolding e by auto
    from on_path_not_loading[OF inv this(1)] this(2) leafy[rule_format, of i] show False by auto
  qed
  then have "update_parent_state (tree a) (state_column a) item c = state_column a c"
    by (simp add: ups_frame)
  moreover from inv N leafy have "state_column a c = Checked \<or> state_column a c = Unchecked"
    unfolding shape_def by blast
  ultimately show "update_parent_state (tree a) (state_column a) item c = Checked \<or>
      update_parent_state (tree a) (state_column a) item c = Unchecked" by simp
qed

lemma kind_at_root_only:
  "kind_at (Item Top [Item (Node sd) []]) c =
     (if c = [] then Some Top else if c = [0] then Some (Node sd) else None)"
proof (cases c)
  case Nil
  then show ?thesis by simp
next
  case (Cons i c')
  then show ?thesis by (cases c') (auto simp: kind_at_def)
qed

lemma populate_tree_shape:
  assumes sd: "source_dir a = Some sd" and dir: "isdir (fs w) sd"
  shows "shape w (populate_tree w a cps)"
proof -
  let ?a1 = "a\<lparr>tree := Item Top [], state_column := (\<lambda>i. Blank), path_to_id_map := []\<rparr>"
  let ?cp = "map (resolve w) cps"
  let ?a2 = "fst (add_node_to_tree w ?a1 [] sd True ?cp)"
  let ?a3 = "case listdir (fs w) sd of
               Some names \<Rightarrow> add_listing w ?a2 [0] sd names ?cp
             | None \<Rightarrow> add_message ?a2 [0]"
  let ?cs = "get_children (tree ?a3) [0]"
  have rid: "snd (add_node_to_tree w ?a1 [] sd True ?cp) = [0]"
    by (simp add: add_node_to_tree_def Let_def get_children_def)
  have t2: "tree ?a2 = Item Top [Item (Node sd) []]"
    by (simp add: add_node_to_tree_def Let_def tree_insert_def)
  have s2: "state_column ?a2 [0] = Checked \<or> state_column ?a2 [0] = Unchecked"
    by (simp add: add_node_to_tree_def Let_def get_children_def)
  have sd2: "source_dir ?a2 = Some sd" using sd by (simp add: add_node_fields)
  have sh2: "shape w ?a2"
    unfolding shape_def t2 kind_at_root_only using sd2 dir s2
    by (auto split: if_splits)
  have par: "kind_at (tree ?a2) [0] = Some (Node sd)" by (simp add: t2 kind_at_root_only)
  have nl: "\<forall>i. kind_at (tree ?a2) ([0] @ [i]) \<noteq> Some Loading" by (simp add: t2 kind_at_root_only)
  have sh3: "shape w ?a3"
  proof (cases "listdir (fs w) sd")
    case None
    with add_message_shape[OF sh2 par dir nl] show ?thesis by simp
  next
    case (Some names)
    with add_listing_shape(1)[OF sh2 par dir nl] show ?thesis by simp
  qed
  have nl3: "\<forall>i. kind_at (tree ?a3) ([0] @ [i]) \<noteq> Some Loading"
  proof (cases "listdir (fs w) sd")
    case None
    from par obtain it where it: "item_at (tree ?a2) [0] = Some it" by (auto simp: kind_at_def)
    have "kind_at (tree (add_message ?a2 [0])) = (kind_at (tree ?a2))([0] @ [length (children it)] \<mapsto> Message)"
      using kind_at_insert_leaf[OF it, of Message] by (simp add: add_message_def)
    with nl None show ?thesis by auto
  next
    case (Some names)
    with add_listing_shape(3)[OF sh2 par dir nl] show ?thesis by simp
  qed
  have e: "populate_tree w a cps =
      (if ?cs \<noteq> []
       then ?a3\<lparr>state_column := update_parent_state (tree ?a3) (state_column ?a3) ([0] @ [length ?cs - 1])\<rparr>
       else ?a3)"
    using sd rid by (simp add: populate_tree_def Let_def split_def cong: option.case_cong)
  show ?thesis
  proof (cases "?cs = []")
    case True
    with e sh3 show ?thesis by simp
  next
    case False
    then have "length ?cs - 1 < length ?cs" by simp
    then have "kind_at (tree ?a3) ([0] @ [length ?cs - 1]) \<noteq> None"
      by (simp only: kind_at_snoc) simp
    moreover have "kind_at (tree ?a3) ([0] @ [length ?cs - 1]) \<noteq> Some Loading"
      using nl3 by blast
    ultimately have "shape w (?a3\<lparr>state_column :=
        update_parent_state (tree ?a3) (state_column ?a3) ([0] @ [length ?cs - 1])\<rparr>)"
      by (intro ups_shape[OF sh3])
    with e False show ?thesis by simp
  qed
qed

lemma loaded_from_shape:
  assumes inv: "shape w a"
  shows "item_at (tree a) item = Some it \<Longrightarrow> kind_at (tree a) (item @ r) = Some k \<Longrightarrow>
         k \<noteq> Loading \<Longrightarrow> loaded_below it r"
proof (induction r arbitrary: item it)
  case Nil
  then show ?case by simp
next
  case (Cons i r)
  have gc: "get_children (tree a) item = children it"
    using Cons.prems(1) by (simp add: get_children_def)
  from on_path_not_loading[OF inv Cons.prems(2)] Cons.prems(3)
  have k: "kind_at (tree a) (item @ [i]) \<noteq> None" "kind_at (tree a) (item @ [i]) \<noteq> Some Loading"
    by auto
  from k(1) have i: "i < length (children it)" by (simp add: kind_at_snoc gc split: if_splits)
  with k(2) have nl: "kind_of (children it ! i) \<noteq> Loading" by (simp add: kind_at_snoc gc)
  have "item_at (tree a) (item @ [i]) = Some (children it ! i)"
    using Cons.prems(1) i by (rule item_at_snoc)
  moreover have "kind_at (tree a) ((item @ [i]) @ r) = Some k" using Cons.prems(2) by simp
  ultimately have "loaded_below (children it ! i) r" using Cons.prems(3) by (rule Cons.IH)
  with i nl show ?case by simp
qed

lemma above_not_leafy:
  assumes inv: "shape w a"
    and it: "kind_at (tree a) item \<noteq> None" "kind_at (tree a) item \<noteq> Some Loading"
    and leafy: "\<forall>i. kind_at (tree a) (c @ [i]) = None \<or> kind_at (tree a) (c @ [i]) = Some Loading"
  shows "\<not> strict_prefix c item"
proof
  assume "strict_prefix c item"
  then obtain i r where e: "item = c @ i # r" by (rule strict_prefixE')
  from it obtain k where "kind_at (tree a) (c @ i # r) = Some k" "k \<noteq> Loading"
    unfolding e by auto
  from on_path_not_loading[OF inv this(1)] this(2) leafy[rule_format, of i] show False by auto
qed

lemma toggle_shape:
  assumes inv: "shape w a" and s: "s = Checked \<or> s = Unchecked" and ne: "item \<noteq> []"
    and nl: "kind_at (tree a) item \<noteq> Some Loading"
  shows "shape w (a\<lparr>state_column := toggle_check (tree a) (state_column a) item s True\<rparr>)"
proof (rule shape_states[OF inv])
  fix c q
  assume N: "kind_at (tree a) c = Some (Node q)"
    and leafy: "\<forall>i. kind_at (tree a) (c @ [i]) = None \<or> kind_at (tree a) (c @ [i]) = Some Loading"
  let ?st' = "toggle_check (tree a) (state_column a) item s True"
  from inv N leafy have old: "state_column a c = Checked \<or> state_column a c = Unchecked"
    unfolding shape_def by blast
  show "?st' c = Checked \<or> ?st' c = Unchecked"
  proof (cases "item_at (tree a) item")
    case None
    then have "?st' = state_column a"
      by (subst toggle_check.simps) (simp add: tree_exists_def)
    with old show ?thesis by simp
  next
    case (Some it)
    then have ex: "kind_at (tree a) item \<noteq> None" by (simp add: kind_at_def)
    from above_not_leafy[OF inv ex nl leafy] have na: "\<not> strict_prefix c item" .
    show ?thesis
    proof (cases "prefix item c")
      case True
      then obtain r where c: "c = item @ r" by (auto simp: prefix_def)
      from N have "loaded_below it r" unfolding c
        by (intro loaded_from_shape[OF inv Some]) auto
      from toggle_subtree[OF ne Some this] s c show ?thesis by simp
    next
      case False
      with na have "\<not> comparable item c" by (auto simp: comparable_def strict_prefix_def)
      then have "?st' c = state_column a c" by (rule toggle_frame)
      with old show ?thesis by simp
    qed
  qed
qed

lemma children_shape:
  assumes inv: "shape w a" and s: "s = Checked \<or> s = Unchecked" and ne: "item \<noteq> []"
    and itn: "kind_at (tree a) item \<noteq> None" "kind_at (tree a) item \<noteq> Some Loading"
    and nl: "\<forall>i. kind_at (tree a) (item @ [i]) \<noteq> Some Loading"
  shows "shape w (a\<lparr>state_column := update_children_state (tree a) (state_column a) item s\<rparr>)"
proof (rule shape_states[OF inv])
  fix c q
  assume N: "kind_at (tree a) c = Some (Node q)"
    and leafy: "\<forall>i. kind_at (tree a) (c @ [i]) = None \<or> kind_at (tree a) (c @ [i]) = Some Loading"
  let ?st' = "update_children_state (tree a) (state_column a) item s"
  from inv N leafy have old: "state_column a c = Checked \<or> state_column a c = Unchecked"
    unfolding shape_def by blast
  from itn obtain it where it: "item_at (tree a) item = Some it" by (auto simp: kind_at_def)
  from above_not_leafy[OF inv itn leafy] have na: "\<not> strict_prefix c item" .
  show "?st' c = Checked \<or> ?st' c = Unchecked"
  proof (cases "prefix item c")
    case True
    then obtain r where c: "c = item @ r" by (auto simp: prefix_def)
    show ?thesis
    proof (cases "r = []")
      case True
      with c leafy nl have "kind_at (tree a) (item @ [0]) = None" by auto
      then have "get_children (tree a) item = []" by (simp add: kind_at_snoc split: if_splits)
      then have "?st' = state_column a" by (subst update_children_state.simps) simp
      with old show ?thesis by simp
    next
      case False
      from N have "loaded_below it r" unfolding c
        by (intro loaded_from_shape[OF inv it]) auto
      with children_subtree_aux[of "tree a" item "state_column a" s] it False c s
      show ?thesis by auto
    qed
  next
    case False
    with na have "\<not> comparable item c" by (auto simp: comparable_def strict_prefix_def)
    then have "?st' c = state_column a c" by (rule children_frame)
    with old show ?thesis by simp
  qed
qed

lemma placeholder_alone:
  assumes inv: "shape w a" and L: "kind_at (tree a) (item @ [0]) = Some Loading"
  obtains it q where "item_at (tree a) item = Some it" "children it = [Item Loading []]"
    "kind_of it = Node q" "isdir (fs w) q" "item \<noteq> []"
proof -
  from inv L obtain q where q: "kind_at (tree a) item = Some (Node q)"
    and k1: "kind_at (tree a) (item @ [1]) = None"
    and k2: "kind_at (tree a) ((item @ [0]) @ [0]) = None"
    unfolding shape_def by blast
  from inv q L have dir: "isdir (fs w) q" unfolding shape_def by (metis option.distinct(1))
  from inv have "kind_of (tree a) = Top" by (simp add: shape_def)
  with q have ne: "item \<noteq> []" by auto
  from q obtain it where it: "item_at (tree a) item = Some it" and k: "kind_of it = Node q"
    by (auto simp: kind_at_def)
  have gc: "get_children (tree a) item = children it" using it by (simp add: get_children_def)
  from L have l0: "0 < length (children it)" "kind_of (children it ! 0) = Loading"
    by (simp_all add: kind_at_snoc gc split: if_splits)
  from k1 have l1: "\<not> 1 < length (children it)" by (simp add: kind_at_snoc gc split: if_splits)
  from l0 l1 obtain c where cs: "children it = [c]" by (cases "children it") auto
  have "item_at (tree a) (item @ [0]) = Some c" using it cs by (simp add: item_at_append)
  then have "get_children (tree a) (item @ [0]) = children c" by (simp add: get_children_def)
  with k2 have "children c = []"
    using kind_at_snoc[of "tree a" "item @ [0]" 0] by (simp split: if_splits)
  moreover from l0 cs have "kind_of c = Loading" by simp
  ultimately have "c = Item Loading []" by (cases c) simp
  with cs it k dir ne show ?thesis by (intro that) auto
qed

lemma delete_shape:
  assumes inv: "shape w a" and L: "kind_at (tree a) (item @ [0]) = Some Loading"
  shows "shape w (a\<lparr>tree := tree_delete_first (tree a) item\<rparr>)"
    and "kind_at (tree_delete_first (tree a) item) = (kind_at (tree a))(item @ [0] := None)"
proof -
  let ?K = "kind_at (tree a)"
  let ?a' = "a\<lparr>tree := tree_delete_first (tree a) item\<rparr>"
  from placeholder_alone[OF inv L] obtain it q where it: "item_at (tree a) item = Some it"
    and cs: "children it = [Item Loading []]" and k: "kind_of it = Node q" and ne: "item \<noteq> []"
    by blast
  have q: "?K item = Some (Node q)" using it k by (simp add: kind_at_def)
  have sib: "?K (item @ [i]) = None \<or> ?K (item @ [i]) = Some Loading" for i
    using it cs by (simp add: kind_at_snoc get_children_def)
  show K': "kind_at (tree_delete_first (tree a) item) = ?K(item @ [0] := None)"
    using it cs by (rule kind_at_delete_placeholder)
  then have K'': "kind_at (tree ?a') = ?K(item @ [0] := None)" by simp
  show "shape w ?a'"
    unfolding shape_def
  proof (intro conjI allI impI)
    have "kind_at (tree ?a') [] = ?K []" unfolding K'' by simp
    with inv show "kind_of (tree ?a') = Top" by (simp add: shape_def)
  next
    from inv obtain sd where "source_dir a = Some sd" "isdir (fs w) sd" "?K [0] = Some (Node sd)"
      by (auto simp: shape_def)
    moreover have "kind_at (tree ?a') [0] = ?K [0]" unfolding K'' using ne by simp
    ultimately show "\<exists>sd. source_dir ?a' = Some sd \<and> isdir (fs w) sd \<and>
        kind_at (tree ?a') [0] = Some (Node sd)" by simp
  next
    fix c i
    assume "kind_at (tree ?a') (c @ [i]) = Some Loading"
    then have old: "?K (c @ [i]) = Some Loading" unfolding K'' by (auto split: if_splits)
    with inv have f: "i = 0" "\<exists>q. ?K c = Some (Node q)" "?K (c @ [1]) = None"
      "?K ((c @ [0]) @ [0]) = None" unfolding shape_def by blast+
    show "i = 0" by (rule f(1))
    from f(2) L show "\<exists>q. kind_at (tree ?a') c = Some (Node q)" unfolding K'' by auto
    from f(3) show "kind_at (tree ?a') (c @ [1]) = None" unfolding K'' by auto
    from f(4) show "kind_at (tree ?a') ((c @ [0]) @ [0]) = None" unfolding K'' by auto
  next
    fix c i q'
    assume "kind_at (tree ?a') c = Some (Node q')" "kind_at (tree ?a') (c @ [i]) \<noteq> None"
    then have "?K c = Some (Node q')" "?K (c @ [i]) \<noteq> None"
      unfolding K'' by (auto split: if_splits)
    with inv show "isdir (fs w) q'" unfolding shape_def by blast
  next
    fix c q'
    assume N: "kind_at (tree ?a') c = Some (Node q')"
      and leafy: "\<forall>i. kind_at (tree ?a') (c @ [i]) = None \<or> kind_at (tree ?a') (c @ [i]) = Some Loading"
    from N have N0: "?K c = Some (Node q')" unfolding K'' by (auto split: if_splits)
    have "\<forall>i. ?K (c @ [i]) = None \<or> ?K (c @ [i]) = Some Loading"
    proof (cases "c = item")
      case True
      with sib show ?thesis by simp
    next
      case False
      with leafy show ?thesis unfolding K'' by auto
    qed
    with inv N0 have "state_column a c = Checked \<or> state_column a c = Unchecked"
      unfolding shape_def by blast
    then show "state_column ?a' c = Checked \<or> state_column ?a' c = Unchecked" by simp
  qed
qed

lemma add_listing_fields:
  "source_dir (add_listing w a p pp names checked) = source_dir a"
proof -
  have "source_dir (fold (\<lambda>nm a'. fst (add_node_to_tree w a' p (pp @ [nm]) False checked)) ns a)
        = source_dir a" for ns
    by (induction ns arbitrary: a) (simp_all add: add_node_fields)
  then show ?thesis by (simp add: add_listing_def)
qed

lemma on_tree_open_shape:
  assumes inv: "shape w a"
  shows "shape w (on_tree_open w a item)"
proof (cases "item \<noteq> [] \<and> tree_exists (tree a) item \<and>
              get_children (tree a) item \<noteq> [] \<and> kind_of (hd (get_children (tree a) item)) = Loading")
  case False
  then have "on_tree_open w a item = a" by (auto simp: on_tree_open_def Let_def)
  with inv show ?thesis by simp
next
  case True
  then have L: "kind_at (tree a) (item @ [0]) = Some Loading"
    by (cases "get_children (tree a) item") (auto simp: kind_at_snoc)
  from placeholder_alone[OF inv L] obtain it q where it: "item_at (tree a) item = Some it"
    and cs: "children it = [Item Loading []]" and k: "kind_of it = Node q"
    and dir: "isdir (fs w) q" and ne: "item \<noteq> []"
    by blast
  let ?K = "kind_at (tree a)"
  let ?a1 = "a\<lparr>tree := tree_delete_first (tree a) item\<rparr>"
  from delete_shape[OF inv L] have sh1: "shape w ?a1"
    and K1: "kind_at (tree ?a1) = ?K(item @ [0] := None)" by simp_all
  have kq: "?K item = Some (Node q)" using it k by (simp add: kind_at_def)
  have par1: "kind_at (tree ?a1) item = Some (Node q)" unfolding K1 using kq by simp
  have "?K (item @ [i]) = None \<or> ?K (item @ [i]) = Some Loading" for i
    using it cs by (simp add: kind_at_snoc get_children_def)
  then have nl1: "\<forall>i. kind_at (tree ?a1) (item @ [i]) \<noteq> Some Loading"
    unfolding K1 using it cs by (auto simp: kind_at_snoc get_children_def)
  from inv kq have ps: "state_column a item = Checked \<or> state_column a item = Unchecked"
    unfolding shape_def using it cs
    by (auto simp: kind_at_snoc get_children_def)
  let ?cp = "map (resolve w) (checked_paths (case source_dir a of
                      Some sd \<Rightarrow> get_project_settings w (config_manager a) sd
                    | None \<Rightarrow> default_settings))"
  have itq: "it = Item (Node q) [Item Loading []]" using k cs by (cases it) simp
  show ?thesis
  proof (cases "listdir (fs w) q")
    case None
    then have "on_tree_open w a item = add_message ?a1 item"
      using True it itq by (simp add: on_tree_open_def Let_def)
    with add_message_shape[OF sh1 par1 dir nl1] show ?thesis by simp
  next
    case (Some names)
    let ?a2 = "add_listing w ?a1 item q names ?cp"
    from add_listing_shape[OF sh1 par1 dir nl1, of names ?cp]
    have sh2: "shape w ?a2" and par2: "kind_at (tree ?a2) item = Some (Node q)"
      and nl2: "\<forall>i. kind_at (tree ?a2) (item @ [i]) \<noteq> Some Loading" by blast+
    have e: "on_tree_open w a item =
        (if state_column a item \<noteq> Unchecked
         then ?a2\<lparr>state_column := update_children_state (tree ?a2) (state_column ?a2) item
                                      (state_column a item)\<rparr>
         else ?a2)"
      using True it itq Some by (simp add: on_tree_open_def Let_def)
    show ?thesis
    proof (cases "state_column a item = Unchecked")
      case True
      with e sh2 show ?thesis by simp
    next
      case False
      from children_shape[OF sh2 ps ne _ _ nl2] par2
      have "shape w (?a2\<lparr>state_column := update_children_state (tree ?a2) (state_column ?a2) item
                                      (state_column a item)\<rparr>)" by simp
      with e False show ?thesis by simp
    qed
  qed
qed

lemma shape_cong:
  "tree a' = tree a \<Longrightarrow> source_dir a' = source_dir a \<Longrightarrow> state_column a' = state_column a \<Longrightarrow>
   shape w a' = shape w a"
  by (simp add: shape_def)

lemma save_settings_fields:
  "tree (save_settings_for_current_project w a) = tree a"
  "source_dir (save_settings_for_current_project w a) = source_dir a"
  "state_column (save_settings_for_current_project w a) = state_column a"
  "path_to_id_map (save_settings_for_current_project w a) = path_to_id_map a"
  by (simp_all add: save_settings_for_current_project_def Let_def split: option.splits)

lemma load_settings_fields:
  "source_dir (fst (load_settings_for_current_project w a)) = source_dir a"
  by (simp add: load_settings_for_current_project_def Let_def split: option.splits)

lemma set_source_directory_shape:
  "isdir (fs w) path \<Longrightarrow> shape w (set_source_directory w a path)"
  by (simp add: set_source_directory_def Let_def split_def populate_tree_shape load_settings_fields)

lemma refresh_tree_view_shape:
  assumes "shape w a"
  shows "shape w (refresh_tree_view w a)"
proof -
  from assms obtain sd where "source_dir a = Some sd" "isdir (fs w) sd" by (auto simp: shape_def)
  then show ?thesis
    by (simp add: refresh_tree_view_def Let_def split_def populate_tree_shape
                  load_settings_fields save_settings_fields)
qed

lemma on_single_click_shape:
  assumes "shape w a" "kind_at (tree a) item \<noteq> Some Loading"
  shows "shape w (on_single_click w a item)"
proof (cases "item = []")
  case True
  with assms show ?thesis by (simp add: on_single_click_def)
next
  case False
  let ?s = "click_new_state (state_column a item)"
  let ?a' = "a\<lparr>state_column := toggle_check (tree a) (state_column a) item ?s True\<rparr>"
  have "?s = Checked \<or> ?s = Unchecked" by (simp add: click_new_state_def)
  from toggle_shape[OF assms(1) this False assms(2)] have "shape w ?a'" .
  moreover have "shape w (save_settings_for_current_project w ?a') = shape w ?a'"
    by (rule shape_cong) (simp_all add: save_settings_fields)
  ultimately show ?thesis using False by (simp add: on_single_click_def Let_def)
qed

lemma reachable_shape: "reachable w a \<Longrightarrow> shape w a"
proof (induction rule: reachable.induct)
  case (load path a)
  then show ?case by (rule set_source_directory_shape)
next
  case (refresh a)
  then show ?case by (simp add: refresh_tree_view_shape)
next
  case (expand a item_id)
  then show ?case by (simp add: on_tree_open_shape)
next
  case (click a item_id)
  then show ?case by (simp add: on_single_click_shape)
next
  case (edit a cm ds es ms b)
  then show ?case by (simp add: shape_def)
qed

section \<open>Claims about the reachable states\<close>

text \<open>
  C4. In every state the application reaches, a node that shows a path that is not a
  directory is checked or unchecked, and has no children.
\<close>

theorem file_nodes_checked_or_unchecked:
  assumes "reachable w a" "item_at (tree a) item_id = Some (Item (Node p) cs)"
    "\<not> isdir (fs w) p"
  shows "(state_column a item_id = Checked \<or> state_column a item_id = Unchecked) \<and> cs = []"
proof -
  from assms(1) have inv: "shape w a" by (rule reachable_shape)
  from assms(2) have N: "kind_at (tree a) item_id = Some (Node p)" by (simp add: kind_at_def)
  have none: "kind_at (tree a) (item_id @ [i]) = None" for i
  proof (rule ccontr)
    assume "kind_at (tree a) (item_id @ [i]) \<noteq> None"
    with inv N have "isdir (fs w) p" unfolding shape_def by blast
    with assms(3) show False by simp
  qed
  with inv N have "state_column a item_id = Checked \<or> state_column a item_id = Unchecked"
    unfolding shape_def by blast
  moreover from none[of 0] assms(2) have "cs = []"
    by (simp add: kind_at_snoc get_children_def split: if_splits)
  ultimately show ?thesis by simp
qed

theorem file_nodes_checked_or_unchecked_witness:
  "reachable sample_world restored_expanded \<and>
   item_at (tree restored_expanded) [0, 4, 0] = Some (Item (Node [''proj'', ''sub'', ''b.py'']) []) \<and>
   \<not> isdir (fs sample_world) [''proj'', ''sub'', ''b.py''] \<and>
   state_column restored [0, 4] = Checked \<and>
   state_column restored_expanded [0, 4, 0] = Checked"
proof -
  have "isdir (fs sample_world) [''proj'']"
    by (simp add: isdir_def sample_world_def sample_fs_def)
  then have "reachable sample_world restored" unfolding restored_def by (rule reachable.load)
  then have r: "reachable sample_world restored_expanded"
    unfolding restored_expanded_def by (rule reachable.expand)
  have i: "item_at (tree restored_expanded) [0, 4, 0] =
      Some (Item (Node [''proj'', ''sub'', ''b.py'']) [])" by code_simp
  have d: "\<not> isdir (fs sample_world) [''proj'', ''sub'', ''b.py'']"
    by (simp add: isdir_def sample_world_def sample_fs_def)
  have s: "state_column restored [0, 4] = Checked" by code_simp
  have s': "state_column restored_expanded [0, 4, 0] = Checked" by code_simp
  from file_nodes_checked_or_unchecked[OF r i d] r i d s s' show ?thesis by simp
qed

end
